theory Spec2Isabelle
  imports Main "HOL-Library.Word" "HOL-Library.Sublist"
begin

unbundle bit_operations_syntax

section \<open>Conventions of the embedding\<close>

text \<open>
  The program is TypeScript. A JavaScript string is a sequence of UTF-16 code units; it is
  modelled as a \<open>string\<close> whose characters stand for the code units U+0000 to U+00FF, so
  \<open>length\<close> is the JavaScript \<open>.length\<close> on such strings. An exception is a value
  \<open>Inl e\<close> of a sum type. The files of one account (for a fixed base directory) are
  modelled as finite maps from file names to parsed contents.
\<close>

section \<open>Outbox state machine (constants.ts, outbox/state-machine.ts)\<close>

datatype OutboxStatus = pending_review | ready_to_send | sending | sent | failed

text \<open>\<open>OUTBOX_STATUSES\<close> of constants.ts.\<close>

definition OUTBOX_STATUSES :: "OutboxStatus list" where
  "OUTBOX_STATUSES = [pending_review, ready_to_send, sending, sent, failed]"

text \<open>
  \<open>OUTBOX_TRANSITIONS\<close> of constants.ts: a table with three keys. Looking up \<open>sent\<close> or
  \<open>failed\<close> gives \<open>undefined\<close>, here \<open>None\<close>.
\<close>

fun OUTBOX_TRANSITIONS :: "OutboxStatus \<Rightarrow> OutboxStatus list option" where
  "OUTBOX_TRANSITIONS pending_review = Some [ready_to_send]"
| "OUTBOX_TRANSITIONS ready_to_send = Some [sending]"
| "OUTBOX_TRANSITIONS sending = Some [sent, failed]"
| "OUTBOX_TRANSITIONS sent = None"
| "OUTBOX_TRANSITIONS failed = None"

text \<open>
  A draft file, parsed: its \<open>status\<close> and every other property (name to serialised
  value). \<open>extra\<close> is the optional metadata argument of \<open>transitionDraft\<close>; being a
  \<open>Record<string, unknown>\<close> it may carry a \<open>status\<close> of its own, which the object spread
  \<open>{ ...draft, status: newStatus, ...extra }\<close> lets win.
\<close>

record OutboxDraft =
  status :: OutboxStatus
  props :: "string \<rightharpoonup> string"

record Extra =
  extra_status :: "OutboxStatus option"
  extra_props :: "string \<rightharpoonup> string"

text \<open>The three draft directories of one account, each a map from file name to draft.\<close>

record Disk =
  outbox :: "string \<rightharpoonup> OutboxDraft"
  sentbox :: "string \<rightharpoonup> OutboxDraft"
  failedbox :: "string \<rightharpoonup> OutboxDraft"

datatype outbox_error =
    ENOENT
  | InvalidTransitionError OutboxStatus OutboxStatus

text \<open>\<open>{ ...draft, status: newStatus, ...extra }\<close>.\<close>

definition spread_update :: "OutboxDraft \<Rightarrow> OutboxStatus \<Rightarrow> Extra option \<Rightarrow> OutboxDraft" where
  "spread_update draft newStatus extra =
     (case extra of
        None \<Rightarrow> draft\<lparr>status := newStatus\<rparr>
      | Some e \<Rightarrow>
          \<lparr>status = (case extra_status e of None \<Rightarrow> newStatus | Some s \<Rightarrow> s),
           props = props draft ++ extra_props e\<rparr>)"

text \<open>
  \<open>transitionDraft(email, draftFilename, newStatus, extra, base)\<close>. The result pairs what
  the call returns or throws with the disk it leaves behind. \<open>now\<close> is the value of
  \<open>new Date().toISOString()\<close> at the call.
\<close>

definition transitionDraft ::
  "Disk \<Rightarrow> string \<Rightarrow> OutboxStatus \<Rightarrow> Extra option \<Rightarrow> string \<Rightarrow> (outbox_error + unit) \<times> Disk" where
  "transitionDraft disk draftFilename newStatus extra now =
     (case outbox disk draftFilename of
        None \<Rightarrow> (Inl ENOENT, disk)
      | Some draft \<Rightarrow>
          (case OUTBOX_TRANSITIONS (status draft) of
             None \<Rightarrow> (Inl (InvalidTransitionError (status draft) newStatus), disk)
           | Some allowed \<Rightarrow>
               if newStatus \<notin> set allowed
               then (Inl (InvalidTransitionError (status draft) newStatus), disk)
               else
                 let updated = spread_update draft newStatus extra in
                 if newStatus = sent then
                   (Inr (),
                    disk\<lparr>sentbox := (sentbox disk)(draftFilename \<mapsto>
                             updated\<lparr>props := (props updated)(''sent_at'' \<mapsto> now)\<rparr>),
                         outbox := (outbox disk)(draftFilename := None)\<rparr>)
                 else if newStatus = failed then
                   (Inr (),
                    disk\<lparr>failedbox := (failedbox disk)(draftFilename \<mapsto>
                             updated\<lparr>props := (props updated)(''failed_at'' \<mapsto> now)\<rparr>),
                         outbox := (outbox disk)(draftFilename := None)\<rparr>)
                 else
                   (Inr (), disk\<lparr>outbox := (outbox disk)(draftFilename \<mapsto> updated)\<rparr>)))"

text \<open>The four transitions the diagram of the state machine allows.\<close>

definition allowed_transitions :: "(OutboxStatus \<times> OutboxStatus) set" where
  "allowed_transitions =
     {(pending_review, ready_to_send), (ready_to_send, sending), (sending, sent), (sending, failed)}"

section \<open>Strings and numbers of the JavaScript runtime\<close>

definition dquote :: char where "dquote = CHR 0x22"
definition backslash :: char where "backslash = CHR 0x5C"
definition squote :: char where "squote = CHR 0x27"

text \<open>\<open>s.replace(/c/g, r)\<close> for a single character \<open>c\<close>.\<close>

definition replaceAll_char :: "char \<Rightarrow> string \<Rightarrow> string \<Rightarrow> string" where
  "replaceAll_char c r s = concat (map (\<lambda>x. if x = c then r else [x]) s)"

definition startsWith :: "string \<Rightarrow> string \<Rightarrow> bool" where
  "startsWith s p = (take (length p) s = p)"

text \<open>\<open>xs.join(sep)\<close>.\<close>

definition join :: "string \<Rightarrow> string list \<Rightarrow> string" where
  "join sep xs = (case xs of [] \<Rightarrow> [] | y # ys \<Rightarrow> y @ concat (map (\<lambda>z. sep @ z) ys))"

text \<open>\<open>n.toString(b)\<close> for a non-negative integer \<open>n\<close> and a radix \<open>b\<close> from 2 to 36.\<close>

definition digit_char :: "nat \<Rightarrow> char" where
  "digit_char d = ''0123456789abcdefghijklmnopqrstuvwxyz'' ! d"

fun toString_radix :: "nat \<Rightarrow> nat \<Rightarrow> string" where
  "toString_radix b n =
     (if n < b \<or> b < 2 then [digit_char n]
      else toString_radix b (n div b) @ [digit_char (n mod b)])"

declare toString_radix.simps [simp del]

definition number_toString :: "nat \<Rightarrow> string" where
  "number_toString n = toString_radix 10 n"

text \<open>
  The class \<open>\s\<close> of a regular expression, which is also what \<open>trim()\<close> strips: on the
  code units below 256 these are tab, line feed, vertical tab, form feed, carriage return,
  space and the no-break space.
\<close>

definition is_space :: "char \<Rightarrow> bool" where
  "is_space c = (c \<in> {CHR 0x09, CHR 0x0A, CHR 0x0B, CHR 0x0C, CHR 0x0D, CHR 0x20, CHR 0xA0})"

definition trim :: "string \<Rightarrow> string" where
  "trim s = rev (dropWhile is_space (rev (dropWhile is_space s)))"

text \<open>\<open>s.lastIndexOf(c)\<close>: the greatest index holding \<open>c\<close>, or \<open>-1\<close>.\<close>

definition lastIndexOf :: "string \<Rightarrow> char \<Rightarrow> int" where
  "lastIndexOf s c =
     (case filter (\<lambda>i. s ! i = c) (rev [0..<length s]) of
        [] \<Rightarrow> -1
      | i # _ \<Rightarrow> int i)"

text \<open>
  \<open>JSON.stringify\<close> of a string and of an array of strings: the quote, the backslash and
  the control characters are escaped, everything else is copied.
\<close>

definition hex4 :: "nat \<Rightarrow> string" where
  "hex4 n = [digit_char (n div 4096 mod 16), digit_char (n div 256 mod 16),
             digit_char (n div 16 mod 16), digit_char (n mod 16)]"

definition json_escape_char :: "char \<Rightarrow> string" where
  "json_escape_char c =
     (if c = dquote then [backslash, dquote]
      else if c = backslash then [backslash, backslash]
      else if c = CHR 0x08 then [backslash, CHR ''b'']
      else if c = CHR 0x09 then [backslash, CHR ''t'']
      else if c = CHR 0x0A then [backslash, CHR ''n'']
      else if c = CHR 0x0C then [backslash, CHR ''f'']
      else if c = CHR 0x0D then [backslash, CHR ''r'']
      else if (of_char c :: nat) < 32 then [backslash, CHR ''u''] @ hex4 (of_char c)
      else [c])"

definition JSON_stringify_string :: "string \<Rightarrow> string" where
  "JSON_stringify_string s = [dquote] @ concat (map json_escape_char s) @ [dquote]"

definition JSON_stringify_strings :: "string list \<Rightarrow> string" where
  "JSON_stringify_strings xs = ''['' @ join '','' (map JSON_stringify_string xs) @ '']''"

section \<open>Message files (storage/thread-writer.ts)\<close>

text \<open>
  \<open>yamlSafeValue\<close>: the test \<open>/[:#\[\]{}|>&*!']/.test(value)\<close> holds when some character
  of the value is in the class.
\<close>

definition yaml_special :: "char list" where
  "yaml_special = '':#[]{}|>&*!'' @ [squote]"

definition yamlSafeValue :: "string \<Rightarrow> string" where
  "yamlSafeValue v =
     (if (\<exists>c \<in> set v. c \<in> set yaml_special) \<or> startsWith v ''-'' \<or> startsWith v '' ''
      then [dquote] @ replaceAll_char dquote [backslash, dquote]
                        (replaceAll_char backslash [backslash, backslash] v) @ [dquote]
      else v)"

text \<open>
  \<open>MessageFrontmatter\<close>; an optional property is an \<open>option\<close>. The fields \<open>id\<close>,
  \<open>from\<close>, \<open>to\<close>, \<open>cc\<close>, \<open>date\<close> and \<open>uid\<close> carry the prefix \<open>fm_\<close> here.
\<close>

record MessageFrontmatter =
  fm_id :: string
  gmail_message_id :: string
  thread_id :: string
  rfc822_message_id :: "string option"
  in_reply_to :: "string option"
  references :: "string list option"
  fm_from :: string
  from_name :: string
  fm_to :: string
  fm_cc :: "string option"
  fm_date :: string
  fm_uid :: "nat option"

text \<open>\<open>if (s)\<close> for an optional string: \<open>undefined\<close> and the empty string are falsy.\<close>

definition truthy_string :: "string option \<Rightarrow> bool" where
  "truthy_string s = (case s of None \<Rightarrow> False | Some v \<Rightarrow> v \<noteq> [])"

text \<open>\<open>renderMessageMd\<close>: the array \<open>lines\<close> it builds, and the text it returns.\<close>

definition renderMessageMd_lines :: "MessageFrontmatter \<Rightarrow> string \<Rightarrow> string list" where
  "renderMessageMd_lines fm body =
     [''---'',
      ''id: '' @ fm_id fm,
      ''gmail_message_id: '' @ gmail_message_id fm,
      ''thread_id: '' @ thread_id fm]
     @ (if truthy_string (rfc822_message_id fm)
        then [''rfc822_message_id: '' @ [dquote] @ the (rfc822_message_id fm) @ [dquote]] else [])
     @ (if truthy_string (in_reply_to fm)
        then [''in_reply_to: '' @ [dquote] @ the (in_reply_to fm) @ [dquote]] else [])
     @ (case references fm of
          None \<Rightarrow> []
        | Some refs \<Rightarrow> if length refs > 0 then [''references: '' @ JSON_stringify_strings refs] else [])
     @ [''from: '' @ yamlSafeValue (fm_from fm),
        ''from_name: '' @ yamlSafeValue (from_name fm),
        ''to: '' @ yamlSafeValue (fm_to fm)]
     @ (if truthy_string (fm_cc fm) then [''cc: '' @ yamlSafeValue (the (fm_cc fm))] else [])
     @ [''date: '' @ fm_date fm]
     @ (case fm_uid fm of None \<Rightarrow> [] | Some u \<Rightarrow> [''uid: '' @ number_toString u])
     @ [''---'', '''', body, '''']"

definition renderMessageMd :: "MessageFrontmatter \<Rightarrow> string \<Rightarrow> string" where
  "renderMessageMd fm body = join [CHR 0x0A] (renderMessageMd_lines fm body)"

text \<open>
  The condition under which a value needs quoting, in the words of the specification: the
  value contains one of \<open>: # [ ] { } | > & * ! '\<close>, or starts with \<open>-\<close> or with a space.
\<close>

definition yaml_trigger :: "string \<Rightarrow> bool" where
  "yaml_trigger v =
     ((\<exists>c \<in> set v. c \<in> {CHR '':'', CHR ''#'', CHR ''['', CHR '']'', CHR ''{'', CHR ''}'', CHR ''|'',
                           CHR ''>'', CHR ''&'', CHR ''*'', CHR ''!'', CHR 0x27})
      \<or> (v \<noteq> [] \<and> hd v = CHR ''-'') \<or> (v \<noteq> [] \<and> hd v = CHR '' ''))"

section \<open>Snippets (cleaning/snippet-generator.ts)\<close>

text \<open>\<open>body.replace(/\s+/g, " ")\<close>: every maximal run of white space becomes one space.\<close>

function collapse_ws :: "string \<Rightarrow> string" where
  "collapse_ws [] = []"
| "collapse_ws (c # cs) =
     (if is_space c then CHR '' '' # collapse_ws (dropWhile is_space cs)
      else c # collapse_ws cs)"
  by pat_completeness auto
termination
  by (relation "measure length") (auto simp: length_dropWhile_le less_Suc_eq_le)

text \<open>
  \<open>generateSnippet(body, maxLength)\<close>. The test \<open>lastSpace > maxLength * 0.7\<close> is written
  with integers; for the default cap the floating-point product \<open>300 * 0.7\<close> is exactly 210.
\<close>

definition generateSnippet :: "string \<Rightarrow> nat \<Rightarrow> string" where
  "generateSnippet body maxLength =
     (let collapsed = trim (collapse_ws body) in
      if length collapsed \<le> maxLength then collapsed
      else
        let truncated = take maxLength collapsed;
            lastSpace = lastIndexOf truncated CHR '' '' in
        if 10 * lastSpace > 7 * int maxLength
        then take (nat lastSpace) truncated @ ''...''
        else truncated @ ''...'')"

section \<open>Draft validation (outbox/validator.ts)\<close>

text \<open>
  The value \<open>JSON.parse\<close> gives. A number is kept as an integer: the validator only asks
  whether a number is zero. An object is the list of its properties.
\<close>

datatype json =
    JNull
  | JBool bool
  | JNum int
  | JStr string
  | JArr "json list"
  | JObj "(string \<times> json) list"

text \<open>
  \<open>draft.key\<close> for the property names the validator reads; \<open>None\<close> is \<open>undefined\<close>.
  Where a JSON text repeats a key, \<open>JSON.parse\<close> keeps the last value. Arrays and
  primitive values have none of these properties.
\<close>

fun get_prop :: "json \<Rightarrow> string \<Rightarrow> json option" where
  "get_prop (JObj kvs) k = map_of (rev kvs) k"
| "get_prop _ k = None"

text \<open>JavaScript truthiness, as \<open>!x\<close> and \<open>x && ...\<close> test it.\<close>

fun truthy :: "json option \<Rightarrow> bool" where
  "truthy None = False"
| "truthy (Some JNull) = False"
| "truthy (Some (JBool b)) = b"
| "truthy (Some (JNum n)) = (n \<noteq> 0)"
| "truthy (Some (JStr s)) = (s \<noteq> [])"
| "truthy (Some (JArr xs)) = True"
| "truthy (Some (JObj kvs)) = True"

text \<open>\<open>typeof x === "string"\<close>, \<open>Array.isArray(x)\<close> and \<open>typeof x === "object"\<close>.\<close>

fun is_string :: "json option \<Rightarrow> bool" where
  "is_string (Some (JStr s)) = True"
| "is_string _ = False"

fun typeof_object :: "json \<Rightarrow> bool" where
  "typeof_object JNull = True"
| "typeof_object (JArr xs) = True"
| "typeof_object (JObj kvs) = True"
| "typeof_object _ = False"

fun status_name :: "OutboxStatus \<Rightarrow> string" where
  "status_name pending_review = ''pending_review''"
| "status_name ready_to_send = ''ready_to_send''"
| "status_name sending = ''sending''"
| "status_name sent = ''sent''"
| "status_name failed = ''failed''"

text \<open>The messages pushed to \<open>errors\<close>, one constructor for each.\<close>

datatype validation_error =
    NotAnObject
  | BadAction
  | ThreadIdRequired
  | ToNotNonEmptyArray
  | InvalidAddress json
  | SubjectRequired
  | BodyRequired
  | InvalidStatus json

record ValidationResult =
  valid :: bool
  errors :: "validation_error list"

text \<open>\<open>typeof addr !== "string" || !addr.includes("@")\<close>.\<close>

fun bad_address :: "json \<Rightarrow> bool" where
  "bad_address (JStr s) = (CHR ''@'' \<notin> set s)"
| "bad_address _ = True"

text \<open>The six checks of \<open>validateDraft\<close>, each giving the errors it pushes.\<close>

definition action_errors :: "json \<Rightarrow> validation_error list" where
  "action_errors draft =
     (if \<not> truthy (get_prop draft ''action'')
         \<or> get_prop draft ''action'' \<notin> {Some (JStr ''reply''), Some (JStr ''compose'')}
      then [BadAction] else [])"

definition thread_id_errors :: "json \<Rightarrow> validation_error list" where
  "thread_id_errors draft =
     (if get_prop draft ''action'' = Some (JStr ''reply'')
      then (if \<not> truthy (get_prop draft ''thread_id'') \<or> \<not> is_string (get_prop draft ''thread_id'')
            then [ThreadIdRequired] else [])
      else [])"

definition to_errors :: "json \<Rightarrow> validation_error list" where
  "to_errors draft =
     (case get_prop draft ''to'' of
        Some (JArr addrs) \<Rightarrow>
          if length addrs = 0 then [ToNotNonEmptyArray]
          else map InvalidAddress (filter bad_address addrs)
      | _ \<Rightarrow> [ToNotNonEmptyArray])"

definition subject_errors :: "json \<Rightarrow> validation_error list" where
  "subject_errors draft =
     (if \<not> truthy (get_prop draft ''subject'') \<or> \<not> is_string (get_prop draft ''subject'')
      then [SubjectRequired] else [])"

definition body_errors :: "json \<Rightarrow> validation_error list" where
  "body_errors draft =
     (if \<not> truthy (get_prop draft ''body'') \<or> \<not> is_string (get_prop draft ''body'')
      then [BodyRequired] else [])"

definition status_errors :: "json \<Rightarrow> validation_error list" where
  "status_errors draft =
     (case get_prop draft ''status'' of
        None \<Rightarrow> []
      | Some st \<Rightarrow>
          if truthy (Some st) \<and> Some st \<notin> set (map (Some \<circ> JStr \<circ> status_name) OUTBOX_STATUSES)
          then [InvalidStatus st] else [])"

definition validateDraft :: "json \<Rightarrow> ValidationResult" where
  "validateDraft data =
     (if \<not> truthy (Some data) \<or> \<not> typeof_object data
      then \<lparr>valid = False, errors = [NotAnObject]\<rparr>
      else
        let errs = action_errors data @ thread_id_errors data @ to_errors data
                   @ subject_errors data @ body_errors data @ status_errors data
        in \<lparr>valid = (length errs = 0), errors = errs\<rparr>)"

text \<open>
  What the specification asks of a draft, in its words: \<open>action\<close> is \<open>reply\<close> or
  \<open>compose\<close>; a reply has a non-empty string \<open>thread_id\<close>; \<open>to\<close> is a non-empty array of
  strings that contain \<open>@\<close>; \<open>subject\<close> and \<open>body\<close> are non-empty strings. The condition
  on \<open>status\<close> is a parameter.
\<close>

definition nonempty_string :: "json option \<Rightarrow> bool" where
  "nonempty_string v = (\<exists>s. v = Some (JStr s) \<and> s \<noteq> [])"

definition is_address :: "json \<Rightarrow> bool" where
  "is_address v = (\<exists>s. v = JStr s \<and> CHR ''@'' \<in> set s)"

definition allowed_status :: "json option \<Rightarrow> bool" where
  "allowed_status v =
     (v \<in> {Some (JStr ''pending_review''), Some (JStr ''ready_to_send''), Some (JStr ''sending''),
           Some (JStr ''sent''), Some (JStr ''failed'')})"

definition draft_shape_ok :: "json \<Rightarrow> bool" where
  "draft_shape_ok d =
     ((\<exists>kvs. d = JObj kvs)
      \<and> (get_prop d ''action'' = Some (JStr ''reply'') \<or> get_prop d ''action'' = Some (JStr ''compose''))
      \<and> (if get_prop d ''action'' = Some (JStr ''reply'') then nonempty_string (get_prop d ''thread_id'') else True)
      \<and> (\<exists>addrs. get_prop d ''to'' = Some (JArr addrs) \<and> addrs \<noteq> [] \<and> list_all is_address addrs)
      \<and> nonempty_string (get_prop d ''subject'')
      \<and> nonempty_string (get_prop d ''body''))"

section \<open>Thread index (utils/jsonl.ts, storage/index-writer.ts)\<close>

text \<open>
  A line of \<open>threads.jsonl\<close>. The field \<open>last_date\<close> is an ISO 8601 string, written by
  the sync pipeline with \<open>toISOString()\<close>; the index writer reads it only through
  \<open>new Date(e.last_date).getTime()\<close>, and the model keeps that number, the milliseconds
  since the epoch. The other fields play no part in the upsert; \<open>msg_count\<close> stands for
  them.
\<close>

record ThreadIndexEntry =
  entry_id :: string
  msg_count :: nat
  last_date :: int

text \<open>\<open>xs.findIndex(p)\<close>: the first index whose element satisfies \<open>p\<close>, or \<open>-1\<close>.\<close>

fun findIndex :: "('a \<Rightarrow> bool) \<Rightarrow> 'a list \<Rightarrow> int" where
  "findIndex p [] = -1"
| "findIndex p (x # xs) =
     (if p x then 0 else (let i = findIndex p xs in if i < 0 then -1 else i + 1))"

text \<open>
  \<open>upsertJsonl(filePath, item, "id")\<close> on the entries read from the file (none when the
  file does not exist): the array it writes back and returns.
\<close>

definition upsertJsonl :: "ThreadIndexEntry list \<Rightarrow> ThreadIndexEntry \<Rightarrow> ThreadIndexEntry list" where
  "upsertJsonl items item =
     (let idx = findIndex (\<lambda>existing. entry_id existing = entry_id item) items in
      if idx \<ge> 0 then items[nat idx := item] else items @ [item])"

text \<open>
  \<open>items.sort(cmp)\<close>. The sort of JavaScript is stable, and with a comparator that orders
  the elements consistently its result is the one stable arrangement in which no element
  comes before one it compares greater than; inserting the elements one by one, each
  after everything that does not compare greater, computes it.
\<close>

fun sort_insert :: "('a \<Rightarrow> 'a \<Rightarrow> int) \<Rightarrow> 'a \<Rightarrow> 'a list \<Rightarrow> 'a list" where
  "sort_insert cmp x [] = [x]"
| "sort_insert cmp x (y # ys) =
     (if cmp x y < 0 then x # y # ys else y # sort_insert cmp x ys)"

definition js_sort :: "('a \<Rightarrow> 'a \<Rightarrow> int) \<Rightarrow> 'a list \<Rightarrow> 'a list" where
  "js_sort cmp xs = foldl (\<lambda>acc x. sort_insert cmp x acc) [] xs"

text \<open>The comparator \<open>(a, b) => new Date(b.last_date).getTime() - new Date(a.last_date).getTime()\<close>.\<close>

definition newest_first :: "ThreadIndexEntry \<Rightarrow> ThreadIndexEntry \<Rightarrow> int" where
  "newest_first a b = last_date b - last_date a"

text \<open>\<open>upsertThreadIndex(email, entry, base)\<close>: the entries of \<open>threads.jsonl\<close> after the call.\<close>

definition upsertThreadIndex :: "ThreadIndexEntry list \<Rightarrow> ThreadIndexEntry \<Rightarrow> ThreadIndexEntry list" where
  "upsertThreadIndex file entry = js_sort newest_first (upsertJsonl file entry)"

section \<open>Thread grouping (sync/imap-sync.ts)\<close>

text \<open>
  \<open>hashString\<close>. \<open>ToInt32\<close> is what \<open>hash << 5\<close> and \<open>hash |= 0\<close> apply: the value
  modulo \<open>2^32\<close>, read as a signed 32-bit integer. \<open>charCodeAt\<close> gives the code unit.
\<close>

definition ToInt32 :: "int \<Rightarrow> int" where
  "ToInt32 x = (x + 2 ^ 31) mod 2 ^ 32 - 2 ^ 31"

definition hash_step :: "int \<Rightarrow> char \<Rightarrow> int" where
  "hash_step hash chr = ToInt32 ((ToInt32 (hash * 32) - hash) + of_char chr)"

definition padStart :: "nat \<Rightarrow> char \<Rightarrow> string \<Rightarrow> string" where
  "padStart n c s = replicate (n - length s) c @ s"

definition hashString :: "string \<Rightarrow> string" where
  "hashString str = padStart 8 CHR ''0'' (toString_radix 36 (nat \<bar>foldl hash_step 0 str\<bar>))"

text \<open>
  \<open>normalizeSubject\<close>. The pattern \<open>/^(re|fw|fwd):\s*/gi\<close> is anchored at the start, so
  each \<open>replace\<close> removes at most one prefix; it ignores the case of the ASCII letters.
\<close>

definition ascii_lower :: "char \<Rightarrow> char" where
  "ascii_lower c =
     (let n = (of_char c :: nat) in if 65 \<le> n \<and> n \<le> 90 then char_of (n + 32) else c)"

definition starts_with_ci :: "string \<Rightarrow> string \<Rightarrow> bool" where
  "starts_with_ci p s = (length p \<le> length s \<and> map ascii_lower (take (length p) s) = p)"

definition strip_reply_prefix :: "string \<Rightarrow> string" where
  "strip_reply_prefix s =
     (if starts_with_ci ''re:'' s then dropWhile is_space (drop 3 s)
      else if starts_with_ci ''fw:'' s then dropWhile is_space (drop 3 s)
      else if starts_with_ci ''fwd:'' s then dropWhile is_space (drop 4 s)
      else s)"

text \<open>
  \<open>toLowerCase()\<close> on the code units below 256: the letters A to Z and the capital
  letters of Latin-1 (U+00C0 to U+00DE, but not the multiplication sign U+00D7) move up
  by 32.
\<close>

definition toLowerCase_char :: "char \<Rightarrow> char" where
  "toLowerCase_char c =
     (let n = (of_char c :: nat) in
      if (65 \<le> n \<and> n \<le> 90) \<or> (192 \<le> n \<and> n \<le> 222 \<and> n \<noteq> 215) then char_of (n + 32) else c)"

definition toLowerCase :: "string \<Rightarrow> string" where
  "toLowerCase s = map toLowerCase_char s"

definition normalizeSubject :: "string \<Rightarrow> string" where
  "normalizeSubject subject = toLowerCase (trim (strip_reply_prefix (strip_reply_prefix subject)))"

text \<open>
  A fetched message with the result of \<open>parseQuickHeaders(msg.raw)\<close>: the header scan
  gives the empty string for a header that is missing.
\<close>

record QuickHeaders =
  messageId :: string
  inReplyTo :: string
  hdr_references :: "string list"
  hdr_subject :: string

record ImapMessage =
  msg_uid :: nat
  headers :: QuickHeaders

text \<open>
  The body of the loop of \<open>groupIntoThreads\<close>, up to the choice of \<open>threadId\<close>:
  \<open>msgIdToThread\<close> is the map of the batch. \<open>None\<close> is \<open>undefined\<close>.
\<close>

definition by_in_reply_to :: "(string \<rightharpoonup> string) \<Rightarrow> ImapMessage \<Rightarrow> string option" where
  "by_in_reply_to msgIdToThread msg =
     (if inReplyTo (headers msg) \<noteq> [] \<and> msgIdToThread (inReplyTo (headers msg)) \<noteq> None
      then msgIdToThread (inReplyTo (headers msg)) else None)"

definition by_references :: "(string \<rightharpoonup> string) \<Rightarrow> ImapMessage \<Rightarrow> string option \<Rightarrow> string option" where
  "by_references msgIdToThread msg threadId =
     (if \<not> truthy_string threadId \<and> length (hdr_references (headers msg)) > 0
      then (case find (\<lambda>ref. msgIdToThread ref \<noteq> None) (hdr_references (headers msg)) of
              None \<Rightarrow> threadId
            | Some ref \<Rightarrow> msgIdToThread ref)
      else threadId)"

definition first_nonempty :: "string list \<Rightarrow> string" where
  "first_nonempty xs = (case find (\<lambda>x. x \<noteq> []) xs of None \<Rightarrow> last xs | Some x \<Rightarrow> x)"

definition by_subject :: "ImapMessage \<Rightarrow> string option \<Rightarrow> string" where
  "by_subject msg threadId =
     (if \<not> truthy_string threadId
      then hashString (first_nonempty
             [normalizeSubject (hdr_subject (headers msg)), messageId (headers msg),
              ''uid-'' @ number_toString (msg_uid msg)])
      else the threadId)"

definition assign_thread_id :: "(string \<rightharpoonup> string) \<Rightarrow> ImapMessage \<Rightarrow> string" where
  "assign_thread_id msgIdToThread msg =
     by_subject msg (by_references msgIdToThread msg (by_in_reply_to msgIdToThread msg))"

text \<open>
  \<open>threads\<close> is a \<open>Map\<close>, which keeps its keys in the order of their first insertion:
  a list of pairs. \<open>push_message\<close> is \<open>threads.get(threadId).push(msg)\<close>, after the key
  was added with an empty array when it was missing.
\<close>

fun push_message :: "(string \<times> ImapMessage list) list \<Rightarrow> string \<Rightarrow> ImapMessage \<Rightarrow> (string \<times> ImapMessage list) list" where
  "push_message [] threadId msg = [(threadId, [msg])]"
| "push_message ((k, ms) # rest) threadId msg =
     (if k = threadId then (k, ms @ [msg]) # rest else (k, ms) # push_message rest threadId msg)"

definition group_step ::
  "(string \<times> ImapMessage list) list \<times> (string \<rightharpoonup> string) \<Rightarrow> ImapMessage
   \<Rightarrow> (string \<times> ImapMessage list) list \<times> (string \<rightharpoonup> string)" where
  "group_step state msg =
     (let threads = fst state; msgIdToThread = snd state;
          threadId = assign_thread_id msgIdToThread msg;
          msgIdToThread' = (if messageId (headers msg) \<noteq> []
                            then msgIdToThread(messageId (headers msg) \<mapsto> threadId)
                            else msgIdToThread)
      in (push_message threads threadId msg, msgIdToThread'))"

definition group_loop ::
  "ImapMessage list \<Rightarrow> (string \<times> ImapMessage list) list \<times> (string \<rightharpoonup> string)" where
  "group_loop messages = foldl group_step ([], Map.empty) messages"

definition groupIntoThreads :: "ImapMessage list \<Rightarrow> (string \<times> ImapMessage list) list" where
  "groupIntoThreads messages = fst (group_loop messages)"

text \<open>
  The subject of the specification: every leading \<open>re:\<close>, \<open>fw:\<close> or \<open>fwd:\<close>, with the
  white space after it, is stripped, however many there are.
\<close>

definition has_reply_prefix :: "string \<Rightarrow> bool" where
  "has_reply_prefix s = (starts_with_ci ''re:'' s \<or> starts_with_ci ''fw:'' s \<or> starts_with_ci ''fwd:'' s)"

function strip_all_reply_prefixes :: "string \<Rightarrow> string" where
  "strip_all_reply_prefixes s =
     (if has_reply_prefix s then strip_all_reply_prefixes (strip_reply_prefix s) else s)"
  by pat_completeness auto
termination
proof (relation "measure length")
  show "wf (measure length)" by simp
next
  fix s :: string
  assume h: "has_reply_prefix s"
  have "length (dropWhile is_space (drop n s)) < length s" if "0 < n" "n \<le> length s" for n
  proof -
    have "length (dropWhile is_space (drop n s)) \<le> length (drop n s)"
      by (rule length_dropWhile_le)
    also have "\<dots> < length s" using that by simp
    finally show ?thesis .
  qed
  then have "length (strip_reply_prefix s) < length s"
    using h by (auto simp: has_reply_prefix_def strip_reply_prefix_def starts_with_ci_def)
  then show "(strip_reply_prefix s, s) \<in> measure length" by simp
qed

declare strip_all_reply_prefixes.simps [simp del]

definition base36_digits :: "char set" where
  "base36_digits = set ''0123456789abcdefghijklmnopqrstuvwxyz''"

text \<open>Every thread id in the map of a batch has eight characters, all base-36 digits.\<close>

definition ids_ok :: "(string \<rightharpoonup> string) \<Rightarrow> bool" where
  "ids_ok m = (\<forall>k t. m k = Some t \<longrightarrow> length t = 8 \<and> set t \<subseteq> base36_digits)"

section \<open>Message file names (utils/message-filename.ts)\<close>

text \<open>
  A \<open>Date\<close> of JavaScript is a time value or the invalid date. The file only reads a date
  through its UTC getters and only builds one from an ISO string, so a valid date is kept
  as its UTC fields; the fields of a valid date and its time value determine each other.
  \<open>utc_month\<close> counts from 0, as \<open>getUTCMonth()\<close> does.
\<close>

record utc_fields =
  utc_year :: int
  utc_month :: nat
  utc_day :: nat
  utc_hours :: nat
  utc_minutes :: nat
  utc_seconds :: nat
  utc_milliseconds :: nat

datatype JSDate = Invalid_Date | Date_of utc_fields

definition leap_year :: "int \<Rightarrow> bool" where
  "leap_year y = ((y mod 4 = 0 \<and> y mod 100 \<noteq> 0) \<or> y mod 400 = 0)"

text \<open>The days of month \<open>m\<close>, counted from 0, of year \<open>y\<close>.\<close>

definition days_in_month :: "int \<Rightarrow> nat \<Rightarrow> nat" where
  "days_in_month y m =
     (if m = 1 then (if leap_year y then 29 else 28)
      else if m \<in> {3, 5, 8, 10} then 30 else 31)"

definition valid_fields :: "utc_fields \<Rightarrow> bool" where
  "valid_fields d =
     (utc_month d < 12 \<and> 1 \<le> utc_day d \<and> utc_day d \<le> days_in_month (utc_year d) (utc_month d)
      \<and> utc_hours d < 24 \<and> utc_minutes d < 60 \<and> utc_seconds d < 60 \<and> utc_milliseconds d < 1000)"

text \<open>\<open>String(n)\<close> for an integer, and \<open>pad2\<close>.\<close>

definition int_toString :: "int \<Rightarrow> string" where
  "int_toString i = (if i < 0 then ''-'' @ number_toString (nat (- i)) else number_toString (nat i))"

definition pad2 :: "nat \<Rightarrow> string" where
  "pad2 n = padStart 2 CHR ''0'' (number_toString n)"

text \<open>
  \<open>toIsoBasic\<close> and \<open>messageFilename\<close>. On the invalid date every getter gives \<open>NaN\<close>,
  which \<open>pad2\<close> and the template print as \<open>NaN\<close>.
\<close>

definition toIsoBasic :: "JSDate \<Rightarrow> string" where
  "toIsoBasic date =
     (case date of
        Invalid_Date \<Rightarrow> ''NaNNaNNaNTNaNNaNNaNZ''
      | Date_of d \<Rightarrow>
          int_toString (utc_year d) @ pad2 (utc_month d + 1) @ pad2 (utc_day d) @ ''T''
          @ pad2 (utc_hours d) @ pad2 (utc_minutes d) @ pad2 (utc_seconds d) @ ''Z'')"

definition messageFilename :: "JSDate \<Rightarrow> string \<Rightarrow> string" where
  "messageFilename date gmailMessageId = toIsoBasic date @ ''__msg'' @ gmailMessageId @ ''.md''"

text \<open>\<open>\d\<close> matches the ten ASCII digits; \<open>.\<close> matches everything but a line terminator.\<close>

definition is_digit :: "char \<Rightarrow> bool" where
  "is_digit c = (48 \<le> (of_char c :: nat) \<and> (of_char c :: nat) \<le> 57)"

definition line_terminator :: "char \<Rightarrow> bool" where
  "line_terminator c = (c = CHR 0x0A \<or> c = CHR 0x0D)"

definition digits_to_nat :: "string \<Rightarrow> nat" where
  "digits_to_nat s = foldl (\<lambda>acc c. 10 * acc + (of_char c - 48)) 0 s"

text \<open>The day after a date, for the time \<open>24:00:00\<close> of an ISO string.\<close>

definition next_day :: "utc_fields \<Rightarrow> utc_fields" where
  "next_day d =
     (if utc_day d < days_in_month (utc_year d) (utc_month d) then d\<lparr>utc_day := utc_day d + 1\<rparr>
      else if utc_month d < 11 then d\<lparr>utc_month := utc_month d + 1, utc_day := 1\<rparr>
      else d\<lparr>utc_year := utc_year d + 1, utc_month := 0, utc_day := 1\<rparr>)"

text \<open>
  \<open>new Date(s)\<close> for a string \<open>s\<close> of the form \<open>YYYY-MM-DDTHH:mm:ssZ\<close>, the only form this
  file builds. An element out of its range gives the invalid date here; ECMAScript leaves
  that case to the implementation.
\<close>

definition Date_from_iso :: "string \<Rightarrow> JSDate" where
  "Date_from_iso s =
     (let y = int (digits_to_nat (take 4 s));
          mo = digits_to_nat (take 2 (drop 5 s));
          d = digits_to_nat (take 2 (drop 8 s));
          h = digits_to_nat (take 2 (drop 11 s));
          mi = digits_to_nat (take 2 (drop 14 s));
          sec = digits_to_nat (take 2 (drop 17 s));
          day = \<lparr>utc_year = y, utc_month = mo - 1, utc_day = d,
                 utc_hours = 0, utc_minutes = 0, utc_seconds = 0, utc_milliseconds = 0\<rparr>
      in if mo < 1 \<or> 12 < mo \<or> d < 1 \<or> days_in_month y (mo - 1) < d then Invalid_Date
         else if h = 24 \<and> mi = 0 \<and> sec = 0 then Date_of (next_day day)
         else if 23 < h \<or> 59 < mi \<or> 59 < sec then Invalid_Date
         else Date_of (day\<lparr>utc_hours := h, utc_minutes := mi, utc_seconds := sec\<rparr>))"

text \<open>
  \<open>parseMessageFilename\<close>. The pattern
  \<open>/^(\d{4})(\d{2})(\d{2})T(\d{2})(\d{2})(\d{2})Z__msg(.+)\.md$/\<close> fixes the first 21
  characters; the rest must end in \<open>.md\<close>, and what stands before that ending is the last
  group: it must be non-empty and free of line terminators.
\<close>

definition parseMessageFilename :: "string \<Rightarrow> (JSDate \<times> string) option" where
  "parseMessageFilename filename =
     (let year = take 4 filename;
          month = take 2 (drop 4 filename);
          day = take 2 (drop 6 filename);
          hour = take 2 (drop 9 filename);
          minute = take 2 (drop 11 filename);
          second = take 2 (drop 13 filename);
          rest = drop 21 filename;
          msgId = take (length rest - 3) rest
      in if length filename \<ge> 21
            \<and> list_all is_digit (year @ month @ day @ hour @ minute @ second)
            \<and> take 1 (drop 8 filename) = ''T''
            \<and> take 6 (drop 15 filename) = ''Z__msg''
            \<and> length rest \<ge> 4
            \<and> drop (length rest - 3) rest = ''.md''
            \<and> \<not> list_ex line_terminator msgId
         then Some (Date_from_iso (year @ ''-'' @ month @ ''-'' @ day @ ''T'' @ hour @ '':'' @ minute
                                   @ '':'' @ second @ ''Z''),
                    msgId)
         else None)"

section \<open>Paths (utils/paths.ts, constants.ts)\<close>

text \<open>
  \<open>s.split(c)\<close> for a one-character separator: the pieces between the separators, the
  empty ones too; never an empty list.
\<close>

fun split_char :: "char \<Rightarrow> string \<Rightarrow> string list" where
  "split_char c [] = [[]]"
| "split_char c (x # xs) =
     (if x = c then [] # split_char c xs
      else (case split_char c xs of [] \<Rightarrow> [[x]] | y # ys \<Rightarrow> (x # y) # ys))"

text \<open>
  \<open>path.join\<close> and \<open>path.normalize\<close> of Node.js on a POSIX platform, where \<open>node:path\<close>
  is \<open>path.posix\<close> and the slash is the only separator. On Windows \<open>node:path\<close> is
  \<open>path.win32\<close>, which separates at backslashes too and knows drive and UNC roots; it is
  not modelled, and everything below about paths is about a POSIX platform.
  \<open>normalizeString\<close> walks the
  segments between the slashes with a stack: an empty segment and \<open>.\<close> are skipped,
  \<open>..\<close> removes the segment on top unless the stack is empty or has \<open>..\<close> on top, where
  it is kept when the path is relative and dropped when it is absolute, and every other
  segment is put on top.
\<close>

definition normalize_step :: "bool \<Rightarrow> string list \<Rightarrow> string \<Rightarrow> string list" where
  "normalize_step allowAboveRoot res seg =
     (if seg = [] \<or> seg = ''.'' then res
      else if seg = ''..'' then
        (if res \<noteq> [] \<and> last res \<noteq> ''..'' then butlast res
         else if allowAboveRoot then res @ [''..'']
         else res)
      else res @ [seg])"

definition normalizeString :: "string \<Rightarrow> bool \<Rightarrow> string list" where
  "normalizeString path allowAboveRoot =
     foldl (normalize_step allowAboveRoot) [] (split_char CHR ''/'' path)"

definition isAbsolute :: "string \<Rightarrow> bool" where
  "isAbsolute path = (path \<noteq> [] \<and> hd path = CHR ''/'')"

definition path_normalize :: "string \<Rightarrow> string" where
  "path_normalize path =
     (if path = [] then ''.''
      else
        let trailingSeparator = (last path = CHR ''/'');
            p = join ''/'' (normalizeString path (\<not> isAbsolute path))
        in if p = [] then (if isAbsolute path then ''/'' else if trailingSeparator then ''./'' else ''.'')
           else (if isAbsolute path then ''/'' else []) @ p @ (if trailingSeparator then ''/'' else []))"

definition path_join :: "string list \<Rightarrow> string" where
  "path_join args =
     (let used = filter (\<lambda>arg. arg \<noteq> []) args in
      if used = [] then ''.'' else path_normalize (join ''/'' used))"

text \<open>
  The resolver. \<open>homedir\<close> is the value of \<open>os.homedir()\<close>; \<open>base\<close> is the optional
  override, \<open>None\<close> when it is left out.
\<close>

definition MAILDECK_BASE_DIR :: "string \<Rightarrow> string" where
  "MAILDECK_BASE_DIR homedir = path_join [homedir, ''.clawmail3'']"

definition baseDir :: "string \<Rightarrow> string option \<Rightarrow> string" where
  "baseDir homedir override = (case override of None \<Rightarrow> MAILDECK_BASE_DIR homedir | Some b \<Rightarrow> b)"

definition accountDir :: "string \<Rightarrow> string \<Rightarrow> string option \<Rightarrow> string" where
  "accountDir homedir email base = path_join [baseDir homedir base, ''accounts'', email]"

definition threadDir :: "string \<Rightarrow> string \<Rightarrow> string \<Rightarrow> string option \<Rightarrow> string" where
  "threadDir homedir email threadId base = path_join [accountDir homedir email base, ''threads'', threadId]"

definition threadMetaPath :: "string \<Rightarrow> string \<Rightarrow> string \<Rightarrow> string option \<Rightarrow> string" where
  "threadMetaPath homedir email threadId base = path_join [threadDir homedir email threadId base, ''thread.json'']"

definition messagesDir :: "string \<Rightarrow> string \<Rightarrow> string \<Rightarrow> string option \<Rightarrow> string" where
  "messagesDir homedir email threadId base = path_join [threadDir homedir email threadId base, ''messages'']"

definition attachmentsDir :: "string \<Rightarrow> string \<Rightarrow> string \<Rightarrow> string option \<Rightarrow> string" where
  "attachmentsDir homedir email threadId base = path_join [threadDir homedir email threadId base, ''attachments'']"

text \<open>
  A path lies inside a directory when both are absolute or both relative and the
  segments of the directory begin the segments of the path.
\<close>

definition path_segments :: "string \<Rightarrow> string list" where
  "path_segments p = filter (\<lambda>s. s \<noteq> [] \<and> s \<noteq> ''.'') (split_char CHR ''/'' p)"

definition inside :: "string \<Rightarrow> string \<Rightarrow> bool" where
  "inside dir p = (isAbsolute dir = isAbsolute p \<and> prefix (path_segments dir) (path_segments p))"

text \<open>
  What \<open>path.normalize\<close> returns: a non-empty path whose segments are some \<open>..\<close> (none
  when the path is absolute) followed by ordinary names.
\<close>

definition normalized_path :: "string \<Rightarrow> bool" where
  "normalized_path p =
     (p \<noteq> [] \<and> (\<exists>n t. path_segments p = replicate n ''..'' @ t
        \<and> (\<forall>s \<in> set t. s \<noteq> [] \<and> s \<noteq> ''.'' \<and> s \<noteq> ''..'') \<and> (\<not> isAbsolute p \<or> n = 0)))"

section \<open>Sync passes (sync/imap-client.ts, sync/imap-sync.ts, cli/maildeck.ts)\<close>

text \<open>
  The mailbox, as the IMAP server answers: the UIDs \<open>SEARCH SINCE\<close> gives for a depth in
  days, the UIDs of the messages a \<open>FETCH n:*\<close> returns (the last message of the mailbox
  is among them even when its UID is below \<open>n\<close>), the UIDs \<open>SEARCH UNSEEN\<close> gives, and
  the headers of the message with a given UID.
\<close>

record ImapServer =
  search_since :: "nat \<Rightarrow> nat list"
  fetch_from :: "nat \<Rightarrow> nat list"
  search_unseen :: "nat list"
  message_headers :: "nat \<Rightarrow> QuickHeaders"

definition fetch_messages :: "ImapServer \<Rightarrow> nat list \<Rightarrow> ImapMessage list" where
  "fetch_messages server uids = map (\<lambda>u. \<lparr>msg_uid = u, headers = message_headers server u\<rparr>) uids"

text \<open>
  \<open>uids.slice(-maxMessages)\<close> for a number that is not zero: the last \<open>maxMessages\<close>
  elements, or, for a negative number, what is left after the first \<open>-maxMessages\<close>.
\<close>

definition slice_last :: "'a list \<Rightarrow> int \<Rightarrow> 'a list" where
  "slice_last xs m = (if 0 < m then drop (length xs - nat m) xs else drop (nat (- m)) xs)"

text \<open>\<open>fetchRecent\<close>, \<open>fetchSince\<close> and \<open>fetchUnread\<close> of the IMAP client.\<close>

definition fetchRecent :: "ImapServer \<Rightarrow> nat \<Rightarrow> int \<Rightarrow> ImapMessage list" where
  "fetchRecent server days maxMessages =
     (let uids = search_since server days in
      if length uids = 0 then []
      else fetch_messages server (if maxMessages \<noteq> 0 then slice_last uids maxMessages else uids))"

definition fetchSince :: "ImapServer \<Rightarrow> nat \<Rightarrow> ImapMessage list" where
  "fetchSince server lastUid =
     filter (\<lambda>msg. msg_uid msg > lastUid) (fetch_messages server (fetch_from server (lastUid + 1)))"

definition fetchUnread :: "ImapServer \<Rightarrow> ImapMessage list" where
  "fetchUnread server =
     (let uids = search_unseen server in
      if length uids = 0 then [] else fetch_messages server uids)"

text \<open>What a sync pass returns: \<open>{ lastUid, threadCount }\<close>.\<close>

record SyncResult =
  result_lastUid :: nat
  result_threadCount :: nat

text \<open>
  \<open>imapFullSync\<close>: the messages of the last \<open>depthDays\<close> days are fetched, grouped
  and written thread by thread; the result is the greatest UID fetched, 0 when nothing
  was fetched, and the number of threads.
\<close>

definition imapFullSync :: "ImapServer \<Rightarrow> nat \<Rightarrow> int \<Rightarrow> SyncResult" where
  "imapFullSync server depthDays maxMessages =
     (let messages = fetchRecent server depthDays maxMessages;
          threads = groupIntoThreads messages;
          lastUid = (if length messages > 0 then Max (set (map msg_uid messages)) else 0)
      in \<lparr>result_lastUid = lastUid, result_threadCount = length threads\<rparr>)"

text \<open>\<open>AccountMeta\<close>, the contents of \<open>account.json\<close>; \<open>null\<close> is \<open>None\<close>.\<close>

datatype SyncState = idle | syncing | sync_error

record AccountMeta =
  meta_email :: string
  sync_state :: SyncState
  last_sync :: "string option"
  history_id :: "string option"
  last_uid :: "nat option"
  sync_depth_days :: nat
  poll_interval_seconds :: nat

text \<open>\<open>loadAccountMeta\<close>: the parsed file, or the defaults when it cannot be read.\<close>

definition loadAccountMeta :: "AccountMeta option \<Rightarrow> string \<Rightarrow> AccountMeta" where
  "loadAccountMeta file account =
     (case file of
        Some meta \<Rightarrow> meta
      | None \<Rightarrow> \<lparr>meta_email = account, sync_state = idle, last_sync = None, history_id = None,
                  last_uid = None, sync_depth_days = 30, poll_interval_seconds = 60\<rparr>)"

text \<open>
  The flags of \<open>maildeck sync\<close>, parsed: \<open>--full\<close> and \<open>--unread\<close> are set or not,
  \<open>--days\<close> and \<open>--max\<close> are given with a number or left out.
\<close>

record SyncFlags =
  flag_full :: bool
  flag_unread :: bool
  flag_days :: "nat option"
  flag_max :: "int option"

datatype cli_error = NoCredentials

text \<open>The stored high-water mark as a number: \<open>null\<close> counts as 0.\<close>

definition high_water :: "AccountMeta \<Rightarrow> nat" where
  "high_water meta = (case last_uid meta of None \<Rightarrow> 0 | Some u \<Rightarrow> u)"

text \<open>
  Modelled from the spec: \<open>imapIncrementalSync\<close>, which \<open>cmdSync\<close> imports from a version
  of \<open>imap-sync.ts\<close> that is not among the sources. The spec: ``Incremental sync:
  \<open>fetch_since(last_uid)\<close>; same downstream pipeline; \<open>last_uid\<close> advances'', and, for a
  resumed pass that finds no new mail, the same \<open>last_uid\<close> as before. So the pass fetches
  with \<open>fetchSince\<close>, groups like \<open>imapFullSync\<close>, and returns the greatest UID fetched,
  or the \<open>lastUid\<close> it was given when nothing was fetched.
\<close>

definition imapIncrementalSync :: "ImapServer \<Rightarrow> nat \<Rightarrow> SyncResult" where
  "imapIncrementalSync server lastUid =
     (let messages = fetchSince server lastUid;
          threads = groupIntoThreads messages;
          newLastUid = (if length messages > 0 then Max (set (map msg_uid messages)) else lastUid)
      in \<lparr>result_lastUid = newLastUid, result_threadCount = length threads\<rparr>)"

text \<open>
  Modelled from the spec: \<open>imapUnreadSync\<close>, imported from the same absent version of
  \<open>imap-sync.ts\<close>. The spec: ``Unread-only sync: \<open>fetch_unread()\<close>; no high-water
  update''. \<open>cmdSync\<close> stores the \<open>lastUid\<close> of every result, so the result of this pass
  carries the mark stored for the account, which the pass, given the email, reads from
  \<open>account.json\<close>.
\<close>

definition imapUnreadSync :: "ImapServer \<Rightarrow> AccountMeta option \<Rightarrow> string \<Rightarrow> SyncResult" where
  "imapUnreadSync server file account =
     (let messages = fetchUnread server;
          threads = groupIntoThreads messages
      in \<lparr>result_lastUid = high_water (loadAccountMeta file account),
          result_threadCount = length threads\<rparr>)"

text \<open>
  \<open>cmdSync\<close>: what it writes to \<open>account.json\<close>, or the failure it exits with. \<open>file\<close>
  is the parsed \<open>account.json\<close>, \<open>None\<close> when it cannot be read, and \<open>now\<close> is
  \<open>new Date().toISOString()\<close>.
\<close>

definition cmdSync ::
  "SyncFlags \<Rightarrow> string option \<Rightarrow> AccountMeta option \<Rightarrow> string \<Rightarrow> ImapServer
   \<Rightarrow> string \<Rightarrow> cli_error + AccountMeta" where
  "cmdSync flags appPassword file account server now =
     (case appPassword of
        None \<Rightarrow> Inl NoCredentials
      | Some pw \<Rightarrow>
          let meta = loadAccountMeta file account;
              result =
                (if flag_unread flags then imapUnreadSync server file account
                 else if \<not> flag_full flags \<and> (case last_uid meta of None \<Rightarrow> False | Some u \<Rightarrow> u > 0)
                 then imapIncrementalSync server (the (last_uid meta))
                 else imapFullSync server
                        (case flag_days flags of None \<Rightarrow> 7 | Some d \<Rightarrow> d)
                        (case flag_max flags of None \<Rightarrow> 200 | Some m \<Rightarrow> m))
          in Inr (meta\<lparr>last_sync := Some now, sync_state := idle,
                       last_uid := Some (result_lastUid result)\<rparr>))"

section \<open>Noise normalization (cleaning/noise-normalizer.ts)\<close>

text \<open>
  The repository holds two copies of this module. Both replace every match of
  \<open>/(\bhttps?:\/\/[^\s)]+)/g\<close> by \<open>stripUtmParams\<close> of the match; they differ in the
  parameter names that \<open>stripUtmParams\<close> deletes. The copy at
  \<open>cleaning/noise-normalizer.ts\<close> is modelled whole; of the later copy, which also strips
  image lines and footers and shortens long URLs, \<open>stripUtmParams\<close> is modelled.
\<close>

subsection \<open>The URL class of the runtime, on a fragment of the URLs\<close>

























subsection \<open>\<open>stripUtmParams\<close> and \<open>normalizeNoise\<close>\<close>












section \<open>Theorems\<close>

subsection \<open>Outbox state machine\<close>

text \<open>
  C1. For a draft in \<open>outbox/\<close> with status \<open>S\<close> and a requested status \<open>T\<close>, when
  \<open>(S, T)\<close> is not one of the four allowed transitions, \<open>transitionDraft\<close> throws
  \<open>InvalidTransitionError\<close> and leaves the disk exactly as it was: the draft keeps its
  contents and stays in \<open>outbox/\<close>.
\<close>

theorem transitionDraft_rejects_unlisted:
  assumes "outbox disk f = Some draft"
    and "(status draft, T) \<notin> allowed_transitions"
  shows "transitionDraft disk f T extra now = (Inl (InvalidTransitionError (status draft) T), disk)"
  using assms
  by (cases "status draft"; cases T)
     (simp_all add: transitionDraft_def allowed_transitions_def)

theorem transitionDraft_rejects_unlisted_witness:
  "transitionDraft
     \<lparr>outbox = [''draft_005.json'' \<mapsto> \<lparr>status = pending_review, props = Map.empty\<rparr>],
      sentbox = Map.empty, failedbox = Map.empty\<rparr>
     ''draft_005.json'' sent None ''2026-02-17T09:30:00.000Z''
   = (Inl (InvalidTransitionError pending_review sent),
      \<lparr>outbox = [''draft_005.json'' \<mapsto> \<lparr>status = pending_review, props = Map.empty\<rparr>],
       sentbox = Map.empty, failedbox = Map.empty\<rparr>)"
  using transitionDraft_rejects_unlisted
    [of "\<lparr>outbox = [''draft_005.json'' \<mapsto> \<lparr>status = pending_review, props = Map.empty\<rparr>],
          sentbox = Map.empty, failedbox = Map.empty\<rparr>"
        "''draft_005.json''" "\<lparr>status = pending_review, props = Map.empty\<rparr>" sent None
        "''2026-02-17T09:30:00.000Z''"]
  by (simp add: allowed_transitions_def)

subsection \<open>Message files\<close>

lemma yaml_trigger_iff:
  "yaml_trigger v \<longleftrightarrow> (\<exists>c \<in> set v. c \<in> set yaml_special) \<or> startsWith v ''-'' \<or> startsWith v '' ''"
proof -
  have sp: "set yaml_special = {CHR '':'', CHR ''#'', CHR ''['', CHR '']'', CHR ''{'', CHR ''}'', CHR ''|'',
                           CHR ''>'', CHR ''&'', CHR ''*'', CHR ''!'', CHR 0x27}"
    by (simp add: yaml_special_def squote_def)
  have s1: "startsWith v ''-'' \<longleftrightarrow> v \<noteq> [] \<and> hd v = CHR ''-''"
    by (cases v) (auto simp: startsWith_def)
  have s2: "startsWith v '' '' \<longleftrightarrow> v \<noteq> [] \<and> hd v = CHR '' ''"
    by (cases v) (auto simp: startsWith_def)
  show ?thesis by (simp only: yaml_trigger_def sp [symmetric] s1 s2)
qed

lemma escape_two_passes:
  "replaceAll_char dquote [backslash, dquote] (replaceAll_char backslash [backslash, backslash] v)
   = concat (map (\<lambda>c. if c = backslash \<or> c = dquote then [backslash, c] else [c]) v)"
  by (induction v) (auto simp: replaceAll_char_def dquote_def backslash_def)

text \<open>
  C10. \<open>yamlSafeValue\<close> wraps a value in double quotes, with a backslash put before every
  backslash and every double quote, exactly when the value contains one of
  \<open>: # [ ] { } | > & * ! '\<close> or starts with \<open>-\<close> or a space; every other value is returned
  as it is. Hence there is a value with a double quote in it and none of the triggers,
  which \<open>renderMessageMd\<close> writes bare, its quote unescaped, on the \<open>from_name\<close> line of
  the frontmatter.
\<close>

theorem yamlSafeValue_quotes_only_on_trigger:
  "(yaml_trigger v \<longrightarrow>
      yamlSafeValue v =
        [dquote] @ concat (map (\<lambda>c. if c = backslash \<or> c = dquote then [backslash, c] else [c]) v) @ [dquote])
   \<and> (\<not> yaml_trigger v \<longrightarrow> yamlSafeValue v = v)
   \<and> (\<exists>u. dquote \<in> set u \<and> \<not> yaml_trigger u \<and> yamlSafeValue u = u \<and>
          (\<forall>fm body. ''from_name: '' @ u \<in> set (renderMessageMd_lines (fm\<lparr>from_name := u\<rparr>) body)))"
proof (intro conjI impI)
  assume "yaml_trigger v"
  then show "yamlSafeValue v =
        [dquote] @ concat (map (\<lambda>c. if c = backslash \<or> c = dquote then [backslash, c] else [c]) v) @ [dquote]"
    unfolding yamlSafeValue_def escape_two_passes yaml_trigger_iff by simp
next
  assume "\<not> yaml_trigger v"
  then show "yamlSafeValue v = v"
    unfolding yamlSafeValue_def yaml_trigger_iff by simp
next
  let ?u = "[CHR ''a'', dquote, CHR ''b'']"
  have nt: "\<not> yaml_trigger ?u" by (simp add: yaml_trigger_def dquote_def)
  then have bare: "yamlSafeValue ?u = ?u"
    unfolding yamlSafeValue_def yaml_trigger_iff by simp
  have "\<forall>fm body. ''from_name: '' @ ?u \<in> set (renderMessageMd_lines (fm\<lparr>from_name := ?u\<rparr>) body)"
    by (simp add: renderMessageMd_lines_def bare)
  with nt bare show "\<exists>u. dquote \<in> set u \<and> \<not> yaml_trigger u \<and> yamlSafeValue u = u \<and>
          (\<forall>fm body. ''from_name: '' @ u \<in> set (renderMessageMd_lines (fm\<lparr>from_name := u\<rparr>) body))"
    by (intro exI [of _ ?u]) simp
qed

theorem yamlSafeValue_quotes_only_on_trigger_witness:
  "yamlSafeValue ''re: a'' = [dquote] @ ''re: a'' @ [dquote]
   \<and> yamlSafeValue [CHR ''a'', dquote, CHR ''b''] = [CHR ''a'', dquote, CHR ''b'']"
  using yamlSafeValue_quotes_only_on_trigger [of "''re: a''"]
    yamlSafeValue_quotes_only_on_trigger [of "[CHR ''a'', dquote, CHR ''b'']"]
  by (simp add: yaml_trigger_def dquote_def backslash_def)

subsection \<open>Snippets\<close>

lemma lastIndexOf_cases:
  "(lastIndexOf s c = -1 \<and> c \<notin> set s) \<or>
   (\<exists>k<length s. lastIndexOf s c = int k \<and> s ! k = c \<and> (\<forall>j. k < j \<and> j < length s \<longrightarrow> s ! j \<noteq> c))"
proof (cases "filter (\<lambda>i. s ! i = c) (rev [0..<length s])")
  case Nil
  then have "\<forall>i<length s. s ! i \<noteq> c"
    by (auto simp: filter_empty_conv)
  then have "c \<notin> set s" by (auto simp: in_set_conv_nth)
  with Nil show ?thesis by (simp add: lastIndexOf_def)
next
  case (Cons k ks)
  then have "rev (filter (\<lambda>i. s ! i = c) [0..<length s]) = k # ks"
    by (simp add: rev_filter)
  then have f: "filter (\<lambda>i. s ! i = c) [0..<length s] = rev ks @ [k]"
    by (metis rev.simps(2) rev_rev_ident)
  then have "k \<in> set (filter (\<lambda>i. s ! i = c) [0..<length s])" by simp
  then have k1: "k < length s" "s ! k = c" by auto
  have srt: "sorted (filter (\<lambda>i. s ! i = c) [0..<length s])"
    by (simp add: sorted_wrt_filter)
  have "\<forall>j. k < j \<and> j < length s \<longrightarrow> s ! j \<noteq> c"
  proof (intro allI impI notI)
    fix j assume j: "k < j \<and> j < length s" and "s ! j = c"
    then have "j \<in> set (filter (\<lambda>i. s ! i = c) [0..<length s])" by simp
    then have "j \<in> set (rev ks @ [k])" using f by simp
    moreover have "sorted (rev ks @ [k])" using srt f by simp
    ultimately have "j \<le> k" by (auto simp: sorted_append)
    with j show False by simp
  qed
  with k1 Cons show ?thesis by (auto simp: lastIndexOf_def)
qed

lemma collapse_ws_no_space: "\<forall>c\<in>set s. \<not> is_space c \<Longrightarrow> collapse_ws s = s"
  by (induction s) auto

lemma trim_no_space:
  assumes "s \<noteq> []" "\<not> is_space (hd s)" "\<not> is_space (last s)"
  shows "trim s = s"
proof -
  have 1: "dropWhile is_space s = s" using assms by (simp add: dropWhile_eq_self_iff)
  have 2: "dropWhile is_space (rev s) = rev s" using assms by (simp add: dropWhile_eq_self_iff hd_rev)
  show ?thesis by (simp add: trim_def 1 2)
qed

lemma generateSnippet_long_word:
  "generateSnippet (replicate 301 CHR ''a'') 300 = replicate 300 CHR ''a'' @ ''...''"
proof -
  have c: "collapse_ws (replicate 301 CHR ''a'') = replicate 301 CHR ''a''"
    by (rule collapse_ws_no_space) (simp add: is_space_def)
  have t: "trim (replicate 301 CHR ''a'') = replicate 301 CHR ''a''"
    by (rule trim_no_space) (simp_all add: is_space_def)
  have l: "lastIndexOf (replicate 300 CHR ''a'') CHR '' '' = -1"
    using lastIndexOf_cases [of "replicate 300 CHR ''a''" "CHR '' ''"] by auto
  show ?thesis
    by (simp add: generateSnippet_def c t l)
qed

lemma generateSnippet_space_at_210:
  "generateSnippet (replicate 210 CHR ''a'' @ CHR '' '' # replicate 100 CHR ''b'') 300
   = replicate 210 CHR ''a'' @ CHR '' '' # replicate 89 CHR ''b'' @ ''...''"
proof -
  let ?s = "replicate 210 CHR ''a'' @ CHR '' '' # replicate 100 CHR ''b''"
  let ?t = "replicate 210 CHR ''a'' @ CHR '' '' # replicate 89 CHR ''b''"
  have ca: "collapse_ws (replicate n CHR ''a'' @ r) = replicate n CHR ''a'' @ collapse_ws r" for n r
    by (induction n) (simp_all add: is_space_def)
  have db: "dropWhile is_space (replicate 100 CHR ''b'') = replicate 100 CHR ''b''"
    by (simp add: dropWhile_eq_self_iff is_space_def)
  have cb: "collapse_ws (replicate 100 CHR ''b'') = replicate 100 CHR ''b''"
    by (rule collapse_ws_no_space) (simp add: is_space_def)
  have sp: "is_space CHR '' ''" by (simp add: is_space_def)
  have nb: "\<not> is_space CHR ''b''" by (simp add: is_space_def)
  have c: "collapse_ws ?s = ?s"
    by (simp add: ca db cb sp nb)
  have t: "trim ?s = ?s"
    by (rule trim_no_space) (simp_all add: is_space_def hd_append)
  have len: "\<not> length ?s \<le> 300" by simp
  have tk: "take 300 ?s = ?t" by simp
  have l: "lastIndexOf ?t CHR '' '' = 210"
    using lastIndexOf_cases [of ?t "CHR '' ''"]
    by (auto simp: nth_append nth_Cons' split: if_splits)
  have "generateSnippet ?s 300 = ?t @ ''...''"
    unfolding generateSnippet_def c t Let_def tk l using len by simp
  then show ?thesis by simp
qed

text \<open>
  C7, as stated, fails: a body of 301 letters gives a snippet of 303 characters (the cap
  plus the ellipsis), and a body whose last space within the cap is at index 210, exactly
  70% of the cap, is not cut at that space.
\<close>

theorem generateSnippet_over_cap_counterexample:
  "length (generateSnippet (replicate 301 CHR ''a'') 300) = 303
   \<and> generateSnippet (replicate 210 CHR ''a'' @ CHR '' '' # replicate 100 CHR ''b'') 300
       = replicate 210 CHR ''a'' @ CHR '' '' # replicate 89 CHR ''b'' @ ''...''"
  by (simp add: generateSnippet_long_word generateSnippet_space_at_210)

text \<open>
  C7, amended. Let \<open>c\<close> be the body with every run of white space collapsed to one space
  and trimmed. When \<open>c\<close> has at most 300 characters the snippet is \<open>c\<close>. Otherwise the
  snippet has at most 303 characters: it is the first \<open>k\<close> characters of \<open>c\<close> followed by
  \<open>...\<close>, where \<open>k\<close> is the index of the last space among the first 300 characters when
  that index is greater than 210, and \<open>k = 300\<close> when there is no space at the indices
  211 to 299.
\<close>

theorem generateSnippet_default_cap:
  fixes body :: string
  defines "c \<equiv> trim (collapse_ws body)"
  shows "(length c \<le> 300 \<longrightarrow> generateSnippet body 300 = c) \<and>
         (300 < length c \<longrightarrow>
            length (generateSnippet body 300) \<le> 303 \<and>
            (\<exists>k. generateSnippet body 300 = take k c @ ''...'' \<and> 210 < k \<and> k \<le> 300 \<and>
                 (k < 300 \<longrightarrow> c ! k = CHR '' '') \<and>
                 (\<forall>j. k < j \<and> j < 300 \<longrightarrow> c ! j \<noteq> CHR '' '') \<and>
                 (k = 300 \<longrightarrow> (\<forall>j. 210 < j \<and> j < 300 \<longrightarrow> c ! j \<noteq> CHR '' ''))))"
proof (intro conjI impI)
  assume "length c \<le> 300"
  then show "generateSnippet body 300 = c"
    by (simp add: generateSnippet_def c_def)
next
  assume long: "300 < length c"
  define t where "t = take 300 c"
  have lt: "length t = 300" using long by (simp add: t_def)
  have nth_t: "\<And>j. j < 300 \<Longrightarrow> t ! j = c ! j" by (simp add: t_def)
  have gs: "generateSnippet body 300 =
      (if 2100 < 10 * lastIndexOf t CHR '' '' then take (nat (lastIndexOf t CHR '' '')) t @ ''...''
       else t @ ''...'')"
    using long by (simp add: generateSnippet_def c_def t_def Let_def)
  have ex: "\<exists>k. generateSnippet body 300 = take k c @ ''...'' \<and> 210 < k \<and> k \<le> 300 \<and>
                 (k < 300 \<longrightarrow> c ! k = CHR '' '') \<and>
                 (\<forall>j. k < j \<and> j < 300 \<longrightarrow> c ! j \<noteq> CHR '' '') \<and>
                 (k = 300 \<longrightarrow> (\<forall>j. 210 < j \<and> j < 300 \<longrightarrow> c ! j \<noteq> CHR '' ''))"
    using lastIndexOf_cases [of t "CHR '' ''"]
  proof (elim disjE conjE exE)
    assume m1: "lastIndexOf t CHR '' '' = - 1" and none: "CHR '' '' \<notin> set t"
    have "\<And>j. j < 300 \<Longrightarrow> c ! j \<noteq> CHR '' ''"
      using none lt nth_t by (metis nth_mem)
    moreover have "generateSnippet body 300 = take 300 c @ ''...''"
      using gs m1 by (simp add: t_def)
    ultimately show ?thesis by (intro exI [of _ 300]) simp
  next
    fix k
    assume k: "k < length t" "lastIndexOf t CHR '' '' = int k" "t ! k = CHR '' ''"
      and after: "\<forall>j. k < j \<and> j < length t \<longrightarrow> t ! j \<noteq> CHR '' ''"
    show ?thesis
    proof (cases "210 < k")
      case True
      have "take k t = take k c" using k(1) lt by (simp add: t_def min_def)
      then have "generateSnippet body 300 = take k c @ ''...''"
        using gs k(2) True by simp
      moreover have "c ! k = CHR '' ''" using k lt nth_t by simp
      moreover have "\<forall>j. k < j \<and> j < 300 \<longrightarrow> c ! j \<noteq> CHR '' ''"
        using after lt nth_t by simp
      ultimately show ?thesis using True k(1) lt by (intro exI [of _ k]) simp
    next
      case False
      then have "generateSnippet body 300 = take 300 c @ ''...''"
        using gs k(2) by (simp add: t_def)
      moreover have "\<forall>j. 210 < j \<and> j < 300 \<longrightarrow> c ! j \<noteq> CHR '' ''"
        using after lt nth_t False by simp
      ultimately show ?thesis by (intro exI [of _ 300]) simp
    qed
  qed
  show "length (generateSnippet body 300) \<le> 303"
    using ex by auto
  show "\<exists>k. generateSnippet body 300 = take k c @ ''...'' \<and> 210 < k \<and> k \<le> 300 \<and>
                 (k < 300 \<longrightarrow> c ! k = CHR '' '') \<and>
                 (\<forall>j. k < j \<and> j < 300 \<longrightarrow> c ! j \<noteq> CHR '' '') \<and>
                 (k = 300 \<longrightarrow> (\<forall>j. 210 < j \<and> j < 300 \<longrightarrow> c ! j \<noteq> CHR '' ''))"
    by (rule ex)
qed

theorem generateSnippet_default_cap_witness:
  "generateSnippet ''Hello  world'' 300 = ''Hello world''"
  using generateSnippet_default_cap [of "''Hello  world''"]
  by (simp add: trim_def is_space_def)

subsection \<open>Draft validation\<close>

lemma truthy_string_iff: "(\<not> truthy v \<or> \<not> is_string v) \<longleftrightarrow> \<not> nonempty_string v"
  by (cases v rule: truthy.cases) (auto simp: nonempty_string_def)

lemma bad_address_iff: "bad_address a \<longleftrightarrow> \<not> is_address a"
  by (cases a) (auto simp: is_address_def)

lemma action_errors_empty:
  "action_errors d = [] \<longleftrightarrow>
     get_prop d ''action'' = Some (JStr ''reply'') \<or> get_prop d ''action'' = Some (JStr ''compose'')"
  by (auto simp: action_errors_def)

lemma thread_id_errors_empty:
  "thread_id_errors d = [] \<longleftrightarrow>
     (if get_prop d ''action'' = Some (JStr ''reply'') then nonempty_string (get_prop d ''thread_id'') else True)"
  using truthy_string_iff [of "get_prop d ''thread_id''"] by (auto simp: thread_id_errors_def)

lemma to_errors_empty:
  "to_errors d = [] \<longleftrightarrow>
     (\<exists>addrs. get_prop d ''to'' = Some (JArr addrs) \<and> addrs \<noteq> [] \<and> list_all is_address addrs)"
  by (auto simp: to_errors_def filter_empty_conv bad_address_iff list_all_iff
           split: option.splits json.splits)

lemma subject_errors_empty: "subject_errors d = [] \<longleftrightarrow> nonempty_string (get_prop d ''subject'')"
  using truthy_string_iff [of "get_prop d ''subject''"] by (auto simp: subject_errors_def)

lemma body_errors_empty: "body_errors d = [] \<longleftrightarrow> nonempty_string (get_prop d ''body'')"
  using truthy_string_iff [of "get_prop d ''body''"] by (auto simp: body_errors_def)

lemma status_errors_empty:
  "status_errors d = [] \<longleftrightarrow>
     (\<not> truthy (get_prop d ''status'') \<or> allowed_status (get_prop d ''status''))"
  by (auto simp: status_errors_def allowed_status_def OUTBOX_STATUSES_def split: option.splits)

lemmas check_errors_empty =
  action_errors_empty thread_id_errors_empty to_errors_empty subject_errors_empty
  body_errors_empty status_errors_empty

text \<open>
  C6, as stated, fails: a draft with no \<open>status\<close> at all is accepted, although its status
  is not one of the five.
\<close>

theorem validateDraft_accepts_missing_status:
  "valid (validateDraft (JObj [(''action'', JStr ''compose''), (''to'', JArr [JStr ''a@b.com'']),
           (''subject'', JStr ''Hi''), (''body'', JStr ''Hello'')]))
   \<and> get_prop (JObj [(''action'', JStr ''compose''), (''to'', JArr [JStr ''a@b.com'']),
           (''subject'', JStr ''Hi''), (''body'', JStr ''Hello'')]) ''status'' = None
   \<and> \<not> allowed_status None"
  by (simp add: validateDraft_def Let_def action_errors_def
      thread_id_errors_def to_errors_def subject_errors_def body_errors_def status_errors_def
      allowed_status_def)

text \<open>
  C6, amended. \<open>validateDraft\<close> accepts exactly the objects with: \<open>action\<close> equal to
  \<open>reply\<close> or \<open>compose\<close>; a non-empty string \<open>thread_id\<close> whenever the action is
  \<open>reply\<close>; \<open>to\<close> a non-empty array of strings that each contain \<open>@\<close>; non-empty
  strings \<open>subject\<close> and \<open>body\<close>; and a \<open>status\<close> that is either falsy (absent,
  \<open>null\<close>, \<open>false\<close>, \<open>0\<close> or the empty string) or one of the five allowed statuses.
  Every other input is rejected, with at least one error.
\<close>

theorem validateDraft_accepts_iff:
  "(valid (validateDraft d) \<longleftrightarrow>
      draft_shape_ok d \<and> (\<not> truthy (get_prop d ''status'') \<or> allowed_status (get_prop d ''status'')))
   \<and> (valid (validateDraft d) \<longleftrightarrow> errors (validateDraft d) = [])"
proof (cases "\<exists>kvs. d = JObj kvs")
  case False
  then have np: "\<And>k. get_prop d k = None" by (cases d) auto
  have "\<not> valid (validateDraft d) \<and> errors (validateDraft d) \<noteq> []"
    by (simp add: validateDraft_def Let_def action_errors_def np)
  with False show ?thesis by (simp add: draft_shape_ok_def)
next
  case True
  then have obj: "truthy (Some d)" "typeof_object d" by auto
  have v: "valid (validateDraft d) \<longleftrightarrow>
        action_errors d = [] \<and> thread_id_errors d = [] \<and> to_errors d = [] \<and>
        subject_errors d = [] \<and> body_errors d = [] \<and> status_errors d = []"
    using obj by (simp add: validateDraft_def Let_def)
  have e: "valid (validateDraft d) \<longleftrightarrow> errors (validateDraft d) = []"
    using obj by (simp add: validateDraft_def Let_def)
  have "valid (validateDraft d) \<longleftrightarrow>
      draft_shape_ok d \<and> (\<not> truthy (get_prop d ''status'') \<or> allowed_status (get_prop d ''status''))"
    unfolding v check_errors_empty draft_shape_ok_def using True by blast
  with e show ?thesis by blast
qed

theorem validateDraft_accepts_iff_witness:
  "\<not> valid (validateDraft (JObj [(''action'', JStr ''compose''), (''to'', JArr [JStr ''a@b.com'']),
           (''subject'', JStr ''Hi''), (''body'', JStr ''Test''), (''status'', JStr ''bogus'')]))
   \<and> valid (validateDraft (JObj [(''action'', JStr ''reply''), (''thread_id'', JStr ''t1''),
           (''to'', JArr [JStr ''mike@acme.com'']), (''subject'', JStr ''Re: Test''),
           (''body'', JStr ''Looks good!''), (''status'', JStr ''pending_review'')]))"
  using validateDraft_accepts_iff [of "JObj [(''action'', JStr ''compose''), (''to'', JArr [JStr ''a@b.com'']),
           (''subject'', JStr ''Hi''), (''body'', JStr ''Test''), (''status'', JStr ''bogus'')]"]
    validateDraft_accepts_iff [of "JObj [(''action'', JStr ''reply''), (''thread_id'', JStr ''t1''),
           (''to'', JArr [JStr ''mike@acme.com'']), (''subject'', JStr ''Re: Test''),
           (''body'', JStr ''Looks good!''), (''status'', JStr ''pending_review'')]"]
  by (simp add: draft_shape_ok_def allowed_status_def nonempty_string_def is_address_def)

subsection \<open>Thread index\<close>

lemma findIndex_none: "findIndex p xs < 0 \<Longrightarrow> \<forall>x \<in> set xs. \<not> p x"
  by (induction xs) (auto simp: Let_def split: if_splits)

lemma findIndex_some:
  "0 \<le> findIndex p xs \<Longrightarrow> nat (findIndex p xs) < length xs \<and> p (xs ! nat (findIndex p xs))"
proof (induction xs)
  case Nil
  then show ?case by simp
next
  case (Cons x xs)
  show ?case
  proof (cases "p x")
    case True
    then show ?thesis by simp
  next
    case False
    with Cons.prems have nn: "0 \<le> findIndex p xs"
      by (auto simp: Let_def split: if_splits)
    with False have "findIndex p (x # xs) = findIndex p xs + 1"
      by (simp add: Let_def)
    moreover have "nat (findIndex p xs + 1) = Suc (nat (findIndex p xs))"
      using nn by simp
    ultimately show ?thesis using Cons.IH [OF nn] by simp
  qed
qed

lemma upsertJsonl_ids:
  "map entry_id (upsertJsonl items e) =
     (if entry_id e \<in> set (map entry_id items) then map entry_id items
      else map entry_id items @ [entry_id e])"
proof (cases "0 \<le> findIndex (\<lambda>x. entry_id x = entry_id e) items")
  case True
  let ?i = "nat (findIndex (\<lambda>x. entry_id x = entry_id e) items)"
  from findIndex_some [OF True] have i: "?i < length items" "entry_id (items ! ?i) = entry_id e"
    by auto
  then have "entry_id e \<in> set (map entry_id items)"
    by (metis length_map nth_map nth_mem)
  moreover have "map entry_id (items[?i := e]) = map entry_id items"
    using i by (simp add: map_update list_update_same_conv)
  ultimately show ?thesis using True by (simp add: upsertJsonl_def Let_def)
next
  case False
  then have "\<forall>x \<in> set items. entry_id x \<noteq> entry_id e"
    using findIndex_none [of "\<lambda>x. entry_id x = entry_id e" items] by auto
  then have "entry_id e \<notin> set (map entry_id items)" by auto
  then show ?thesis using False by (simp add: upsertJsonl_def Let_def)
qed

lemma upsertJsonl_member: "e \<in> set (upsertJsonl items e)"
proof (cases "0 \<le> findIndex (\<lambda>x. entry_id x = entry_id e) items")
  case True
  from findIndex_some [OF True] show ?thesis
    using True by (simp add: upsertJsonl_def Let_def set_update_memI)
next
  case False
  then show ?thesis by (simp add: upsertJsonl_def Let_def)
qed

lemma set_sort_insert: "set (sort_insert cmp x ys) = insert x (set ys)"
  by (induction ys) auto

lemma distinct_sort_insert:
  "distinct (map f (sort_insert cmp x ys)) \<longleftrightarrow> f x \<notin> f ` set ys \<and> distinct (map f ys)"
  by (induction ys) (auto simp: set_sort_insert)

lemma set_js_sort_aux: "set (foldl (\<lambda>acc x. sort_insert cmp x acc) acc xs) = set acc \<union> set xs"
  by (induction xs arbitrary: acc) (auto simp: set_sort_insert)

lemma set_js_sort: "set (js_sort cmp xs) = set xs"
  by (simp add: js_sort_def set_js_sort_aux)

lemma distinct_js_sort_aux:
  "distinct (map f (foldl (\<lambda>acc x. sort_insert cmp x acc) acc xs)) \<longleftrightarrow> distinct (map f (acc @ xs))"
proof (induction xs arbitrary: acc)
  case Nil
  then show ?case by simp
next
  case (Cons x xs)
  have "distinct (map f (sort_insert cmp x acc @ xs)) \<longleftrightarrow> distinct (map f (acc @ x # xs))"
    by (auto simp: distinct_sort_insert set_sort_insert)
  with Cons.IH [of "sort_insert cmp x acc"] show ?case by simp
qed

lemma distinct_js_sort: "distinct (map f (js_sort cmp xs)) \<longleftrightarrow> distinct (map f xs)"
  by (simp add: js_sort_def distinct_js_sort_aux)

lemma sorted_sort_insert:
  "sorted_wrt (\<lambda>a b. last_date a \<ge> last_date b) ys \<Longrightarrow>
   sorted_wrt (\<lambda>a b. last_date a \<ge> last_date b) (sort_insert newest_first x ys)"
  by (induction ys) (auto simp: set_sort_insert newest_first_def)

lemma sorted_js_sort_aux:
  "sorted_wrt (\<lambda>a b. last_date a \<ge> last_date b) acc \<Longrightarrow>
   sorted_wrt (\<lambda>a b. last_date a \<ge> last_date b) (foldl (\<lambda>acc x. sort_insert newest_first x acc) acc xs)"
  by (induction xs arbitrary: acc) (auto simp: sorted_sort_insert)

lemma sorted_js_sort: "sorted_wrt (\<lambda>a b. last_date a \<ge> last_date b) (js_sort newest_first xs)"
  by (simp add: js_sort_def sorted_js_sort_aux)

text \<open>
  C3. When the entries of \<open>threads.jsonl\<close> have distinct ids, after
  \<open>upsertThreadIndex\<close> the rewritten index still has distinct ids, its ids are the old
  ones together with the id of the upserted entry, the upserted entry is in it, and the
  entries are ordered by \<open>last_date\<close> descending, newest first.
\<close>

theorem upsertThreadIndex_distinct_sorted:
  assumes "distinct (map entry_id file)"
  shows "distinct (map entry_id (upsertThreadIndex file entry))
       \<and> set (map entry_id (upsertThreadIndex file entry)) = insert (entry_id entry) (set (map entry_id file))
       \<and> entry \<in> set (upsertThreadIndex file entry)
       \<and> sorted_wrt (\<lambda>a b. last_date a \<ge> last_date b) (upsertThreadIndex file entry)"
proof -
  have d: "distinct (map entry_id (upsertJsonl file entry))"
    using assms by (simp add: upsertJsonl_ids)
  have s: "set (map entry_id (upsertJsonl file entry)) = insert (entry_id entry) (set (map entry_id file))"
    by (auto simp: upsertJsonl_ids)
  have s': "set (map entry_id (upsertThreadIndex file entry)) = set (map entry_id (upsertJsonl file entry))"
    by (simp add: upsertThreadIndex_def set_js_sort)
  show ?thesis
    using d s s' by (simp add: upsertThreadIndex_def distinct_js_sort set_js_sort upsertJsonl_member sorted_js_sort)
qed

text \<open>
  The three upserts of the specification, with \<open>last_date\<close> 2026-02-10, 2026-02-20 and
  2026-02-15 (as milliseconds since the epoch), leave the order 2026-02-20, 2026-02-15,
  2026-02-10.
\<close>

theorem upsertThreadIndex_distinct_sorted_witness:
  "upsertThreadIndex (upsertThreadIndex (upsertThreadIndex []
       \<lparr>entry_id = ''old'', msg_count = 1, last_date = 1770681600000\<rparr>)
       \<lparr>entry_id = ''new'', msg_count = 1, last_date = 1771545600000\<rparr>)
       \<lparr>entry_id = ''mid'', msg_count = 1, last_date = 1771113600000\<rparr>
   = [\<lparr>entry_id = ''new'', msg_count = 1, last_date = 1771545600000\<rparr>,
      \<lparr>entry_id = ''mid'', msg_count = 1, last_date = 1771113600000\<rparr>,
      \<lparr>entry_id = ''old'', msg_count = 1, last_date = 1770681600000\<rparr>]"
  using upsertThreadIndex_distinct_sorted
    [of "upsertThreadIndex (upsertThreadIndex []
           \<lparr>entry_id = ''old'', msg_count = 1, last_date = 1770681600000\<rparr>)
           \<lparr>entry_id = ''new'', msg_count = 1, last_date = 1771545600000\<rparr>"
        "\<lparr>entry_id = ''mid'', msg_count = 1, last_date = 1771113600000\<rparr>"]
  by (simp add: upsertThreadIndex_def upsertJsonl_def js_sort_def newest_first_def Let_def)

subsection \<open>Thread grouping\<close>

lemma ToInt32_range: "- (2 ^ 31) \<le> ToInt32 x \<and> ToInt32 x < 2 ^ 31"
proof -
  have "0 \<le> (x + 2 ^ 31) mod 2 ^ 32" "(x + 2 ^ 31) mod 2 ^ 32 < (2 ^ 32 :: int)"
    by simp_all
  then show ?thesis unfolding ToInt32_def by simp
qed

lemma hash_range_aux:
  "- (2 ^ 31) \<le> acc \<and> acc < 2 ^ 31 \<Longrightarrow>
   - (2 ^ 31) \<le> foldl hash_step acc str \<and> foldl hash_step acc str < 2 ^ 31"
proof (induction str arbitrary: acc)
  case Nil
  then show ?case by simp
next
  case (Cons c cs)
  have "- (2 ^ 31) \<le> hash_step acc c \<and> hash_step acc c < 2 ^ 31"
    unfolding hash_step_def by (rule ToInt32_range)
  from Cons.IH [OF this] show ?case by simp
qed

lemma hash_range: "- (2 ^ 31) \<le> foldl hash_step 0 str \<and> foldl hash_step 0 str < 2 ^ 31"
  by (rule hash_range_aux) simp

lemma digit_char_base36: "d < 36 \<Longrightarrow> digit_char d \<in> base36_digits"
  unfolding digit_char_def base36_digits_def by (rule nth_mem) simp

lemma toString_radix_digits:
  "2 \<le> b \<Longrightarrow> b \<le> 36 \<Longrightarrow> set (toString_radix b n) \<subseteq> base36_digits"
proof (induction b n rule: toString_radix.induct)
  case (1 b n)
  show ?case
  proof (cases "n < b")
    case True
    with 1 have "digit_char n \<in> base36_digits" by (intro digit_char_base36) simp
    with True show ?thesis by (subst toString_radix.simps) simp
  next
    case False
    with 1 have ih: "set (toString_radix b (n div b)) \<subseteq> base36_digits" by simp
    have "n mod b < b" using 1(2) by simp
    then have "n mod b < 36" using 1(3) by simp
    then have "digit_char (n mod b) \<in> base36_digits" by (rule digit_char_base36)
    with ih False 1(2) show ?thesis by (subst toString_radix.simps) simp
  qed
qed

lemma toString_radix_length:
  "2 \<le> b \<Longrightarrow> 0 < k \<Longrightarrow> n < b ^ k \<Longrightarrow> length (toString_radix b n) \<le> k"
proof (induction b n arbitrary: k rule: toString_radix.induct)
  case (1 b n)
  show ?case
  proof (cases "n < b")
    case True
    then show ?thesis using 1(3) by (subst toString_radix.simps) simp
  next
    case False
    have "k \<noteq> 1" using False 1(4) by auto
    with 1(3) obtain k' where k: "k = Suc k'" "0 < k'" by (cases k) auto
    have "n div b < b ^ k'"
      using 1(4) k 1(2) by (simp add: less_mult_imp_div_less mult.commute)
    with 1(1) [of k'] False 1(2) k have "length (toString_radix b (n div b)) \<le> k'" by simp
    with False 1(2) k show ?thesis by (subst toString_radix.simps) simp
  qed
qed

lemma hashString_shape: "length (hashString str) = 8 \<and> set (hashString str) \<subseteq> base36_digits"
proof -
  let ?n = "nat \<bar>foldl hash_step 0 str\<bar>"
  have "?n \<le> 2 ^ 31" using hash_range [of str] by auto
  also have "\<dots> < (36::nat) ^ 6" by simp
  finally have "length (toString_radix 36 ?n) \<le> 6"
    by (intro toString_radix_length) simp_all
  then have l: "length (hashString str) = 8" by (simp add: hashString_def padStart_def)
  have "set (toString_radix 36 ?n) \<subseteq> base36_digits"
    by (rule toString_radix_digits) simp_all
  moreover have "CHR ''0'' \<in> base36_digits" by (simp add: base36_digits_def)
  ultimately have "set (hashString str) \<subseteq> base36_digits"
    by (auto simp: hashString_def padStart_def)
  with l show ?thesis by simp
qed


lemma strip_reply_prefix_none: "\<not> has_reply_prefix s \<Longrightarrow> strip_reply_prefix s = s"
  by (simp add: has_reply_prefix_def strip_reply_prefix_def)

lemma strip_all_two:
  assumes "\<not> has_reply_prefix (strip_reply_prefix (strip_reply_prefix s))"
  shows "strip_all_reply_prefixes s = strip_reply_prefix (strip_reply_prefix s)"
proof (cases "has_reply_prefix s")
  case False
  then show ?thesis
    by (subst strip_all_reply_prefixes.simps) (simp add: strip_reply_prefix_none)
next
  case True
  then have 1: "strip_all_reply_prefixes s = strip_all_reply_prefixes (strip_reply_prefix s)"
    by (subst strip_all_reply_prefixes.simps) simp
  show ?thesis
  proof (cases "has_reply_prefix (strip_reply_prefix s)")
    case False
    then show ?thesis unfolding 1
      by (subst strip_all_reply_prefixes.simps) (simp add: strip_reply_prefix_none)
  next
    case True
    then have "strip_all_reply_prefixes (strip_reply_prefix s)
        = strip_all_reply_prefixes (strip_reply_prefix (strip_reply_prefix s))"
      by (subst strip_all_reply_prefixes.simps) simp
    also have "\<dots> = strip_reply_prefix (strip_reply_prefix s)"
      using assms by (subst strip_all_reply_prefixes.simps) simp
    finally show ?thesis unfolding 1 .
  qed
qed

lemma first_nonempty3:
  "first_nonempty [a, b, c] = (if a \<noteq> [] then a else if b \<noteq> [] then b else c)"
  by (simp add: first_nonempty_def)

lemma inherited_or_none:
  "by_references m msg (by_in_reply_to m msg) = None \<or>
   (\<exists>k t. m k = Some t \<and> by_references m msg (by_in_reply_to m msg) = Some t)"
proof (cases "by_in_reply_to m msg")
  case None
  show ?thesis
  proof (cases "find (\<lambda>ref. m ref \<noteq> None) (hdr_references (headers msg))")
    case n: None
    with None show ?thesis by (simp add: by_references_def)
  next
    case (Some r)
    then have "m r \<noteq> None" by (auto simp: find_Some_iff)
    with None Some show ?thesis by (auto simp: by_references_def truthy_string_def)
  qed
next
  case (Some t)
  then have t: "m (inReplyTo (headers msg)) = Some t"
    by (auto simp: by_in_reply_to_def split: if_splits)
  show ?thesis
  proof (cases "find (\<lambda>ref. m ref \<noteq> None) (hdr_references (headers msg))")
    case None
    with Some t show ?thesis by (auto simp: by_references_def)
  next
    case r: (Some r)
    then have "m r \<noteq> None" by (auto simp: find_Some_iff)
    with Some t r show ?thesis by (auto simp: by_references_def)
  qed
qed

lemma assign_thread_id_shape:
  assumes "ids_ok m"
  shows "length (assign_thread_id m msg) = 8 \<and> set (assign_thread_id m msg) \<subseteq> base36_digits"
  using inherited_or_none [of m msg]
proof (elim disjE exE conjE)
  assume "by_references m msg (by_in_reply_to m msg) = None"
  then show ?thesis
    by (simp add: assign_thread_id_def by_subject_def truthy_string_def hashString_shape)
next
  fix k t
  assume kt: "m k = Some t" and r: "by_references m msg (by_in_reply_to m msg) = Some t"
  from kt assms have t: "length t = 8 \<and> set t \<subseteq> base36_digits" by (auto simp: ids_ok_def)
  then have "t \<noteq> []" by auto
  with r t show ?thesis
    by (simp add: assign_thread_id_def by_subject_def truthy_string_def)
qed

lemma group_step_ids_ok: "ids_ok (snd st) \<Longrightarrow> ids_ok (snd (group_step st msg))"
  using assign_thread_id_shape [of "snd st" msg]
  by (auto simp: group_step_def Let_def ids_ok_def)

lemma group_loop_ids_ok: "ids_ok (snd (group_loop batch))"
proof (induction batch rule: rev_induct)
  case Nil
  then show ?case by (simp add: group_loop_def ids_ok_def)
next
  case (snoc msg batch)
  then show ?case by (simp add: group_loop_def group_step_ids_ok)
qed

lemma toString_radix_small: "n < b \<Longrightarrow> toString_radix b n = [digit_char n]"
  by (subst toString_radix.simps) simp

lemma toString_radix_big:
  "\<not> n < b \<Longrightarrow> 2 \<le> b \<Longrightarrow> toString_radix b n = toString_radix b (n div b) @ [digit_char (n mod b)]"
  by (subst toString_radix.simps) simp

lemma strip_all_reply_prefixes_none:
  "\<not> has_reply_prefix s \<Longrightarrow> strip_all_reply_prefixes s = s"
  by (subst strip_all_reply_prefixes.simps) simp

lemma strip_all_reply_prefixes_some:
  "has_reply_prefix s \<Longrightarrow> strip_all_reply_prefixes s = strip_all_reply_prefixes (strip_reply_prefix s)"
  by (subst strip_all_reply_prefixes.simps) simp

lemma replicate_two: "replicate 2 x = [x, x]"
  by (simp add: numeral_2_eq_2)

lemmas char_eval = char_of_def bit_Suc_0_iff

lemma strip_third: "strip_reply_prefix ''Re: Re: Re: hello'' = ''Re: Re: hello''"
  by (simp add: strip_reply_prefix_def starts_with_ci_def ascii_lower_def is_space_def Let_def char_eval)

lemma strip_second: "strip_reply_prefix ''Re: Re: hello'' = ''Re: hello''"
  by (simp add: strip_reply_prefix_def starts_with_ci_def ascii_lower_def is_space_def Let_def char_eval)

lemma strip_first: "strip_reply_prefix ''Re: hello'' = ''hello''"
  by (simp add: strip_reply_prefix_def starts_with_ci_def ascii_lower_def is_space_def Let_def char_eval)

lemma lower_re_hello: "toLowerCase (trim ''Re: hello'') = ''re: hello''"
  by (simp add: is_space_def Let_def trim_def toLowerCase_def toLowerCase_char_def char_eval)

lemma lower_hello: "toLowerCase (trim ''hello'') = ''hello''"
  by (simp add: is_space_def Let_def trim_def toLowerCase_def toLowerCase_char_def char_eval)

lemma normalizeSubject_three_prefixes: "normalizeSubject ''Re: Re: Re: hello'' = ''re: hello''"
  by (simp add: normalizeSubject_def strip_third strip_second lower_re_hello)

lemma strip_all_three_prefixes: "toLowerCase (trim (strip_all_reply_prefixes ''Re: Re: Re: hello'')) = ''hello''"
proof -
  have p: "has_reply_prefix ''Re: Re: Re: hello''" "has_reply_prefix ''Re: Re: hello''"
    "has_reply_prefix ''Re: hello''" "\<not> has_reply_prefix ''hello''"
    by (simp_all add: has_reply_prefix_def starts_with_ci_def ascii_lower_def Let_def char_eval)
  have "strip_all_reply_prefixes ''Re: Re: Re: hello'' = ''hello''"
    using p by (simp add: strip_all_reply_prefixes_some strip_all_reply_prefixes_none strip_third strip_second strip_first)
  then show ?thesis by (simp add: lower_hello)
qed

lemma hash_re_hello: "foldl hash_step 0 ''re: hello'' = 989707225"
  by (simp add: hash_step_def ToInt32_def)

lemma hashString_re_hello: "hashString ''re: hello'' = ''00gd8uzd''"
  unfolding hashString_def hash_re_hello
  by (simp add: toString_radix_small toString_radix_big padStart_def digit_char_def replicate_two)

lemma hash_hello: "foldl hash_step 0 ''hello'' = 99162322"
  by (simp add: hash_step_def ToInt32_def)

lemma hashString_hello: "hashString ''hello'' = ''001n1e4y''"
  unfolding hashString_def hash_hello
  by (simp add: toString_radix_small toString_radix_big padStart_def digit_char_def replicate_two)

lemma assign_three_prefixes: "assign_thread_id Map.empty \<lparr>msg_uid = 101, headers = \<lparr>messageId = ''<a@x>'', inReplyTo = [],
     hdr_references = [], hdr_subject = ''Re: Re: Re: hello''\<rparr>\<rparr> = ''00gd8uzd''"
  unfolding assign_thread_id_def by_subject_def by_references_def by_in_reply_to_def
  by (simp add: truthy_string_def first_nonempty_def normalizeSubject_three_prefixes hashString_re_hello)

text \<open>
  C9, as stated, fails: of three leading \<open>Re:\<close> only two are stripped, so the subject
  \<open>Re: Re: Re: hello\<close> is normalized to \<open>re: hello\<close>, not to \<open>hello\<close>, and a message
  with that subject gets the thread id of \<open>re: hello\<close>.
\<close>

theorem normalizeSubject_strips_two_counterexample:
  "normalizeSubject ''Re: Re: Re: hello'' = ''re: hello''
   \<and> toLowerCase (trim (strip_all_reply_prefixes ''Re: Re: Re: hello'')) = ''hello''
   \<and> assign_thread_id Map.empty
         \<lparr>msg_uid = 101, headers = \<lparr>messageId = ''<a@x>'', inReplyTo = [],
            hdr_references = [], hdr_subject = ''Re: Re: Re: hello''\<rparr>\<rparr> = ''00gd8uzd''
   \<and> hashString ''re: hello'' = ''00gd8uzd''
   \<and> hashString ''hello'' = ''001n1e4y''"
  by (simp add: normalizeSubject_three_prefixes strip_all_three_prefixes assign_three_prefixes
      hashString_re_hello hashString_hello)

text \<open>
  C9, amended. Let \<open>threads\<close> and \<open>msgIdToThread\<close> be what the grouper has built from
  the messages of a batch processed so far. The next message is put into the thread
  \<open>assign_thread_id msgIdToThread msg\<close>, and its message id, when it has one, is registered
  in the map under that thread id. That thread id is: the one mapped to the in-reply-to
  header, when the header is present and in the map; else the one of the first entry of
  the references found in the map; else, when no entry is in the map, the hash of the
  normalized subject, or of the message id when the normalized subject is empty, or of
  \<open>uid-\<close> and the UID when both are empty. It always has eight characters, all base-36
  digits; so has every hash, which renders a number of 32 bits. The normalized subject is
  the subject with its first two leading \<open>re:\<close>, \<open>fw:\<close> or \<open>fwd:\<close> stripped, trimmed
  and lowercased: this strips all of them when there are at most two.
\<close>

theorem groupIntoThreads_assignment:
  assumes "group_loop batch = (threads, msgIdToThread)"
  shows
    "group_loop (batch @ [msg]) =
       (push_message threads (assign_thread_id msgIdToThread msg) msg,
        if messageId (headers msg) = [] then msgIdToThread
        else msgIdToThread(messageId (headers msg) \<mapsto> assign_thread_id msgIdToThread msg))
     \<and> (\<forall>t. inReplyTo (headers msg) \<noteq> [] \<and> msgIdToThread (inReplyTo (headers msg)) = Some t
            \<longrightarrow> assign_thread_id msgIdToThread msg = t)
     \<and> (\<forall>r t. (inReplyTo (headers msg) = [] \<or> msgIdToThread (inReplyTo (headers msg)) = None)
            \<and> find (\<lambda>ref. msgIdToThread ref \<noteq> None) (hdr_references (headers msg)) = Some r
            \<and> msgIdToThread r = Some t
            \<longrightarrow> assign_thread_id msgIdToThread msg = t)
     \<and> ((inReplyTo (headers msg) = [] \<or> msgIdToThread (inReplyTo (headers msg)) = None)
            \<and> (\<forall>r \<in> set (hdr_references (headers msg)). msgIdToThread r = None)
            \<longrightarrow> assign_thread_id msgIdToThread msg =
                  hashString (if normalizeSubject (hdr_subject (headers msg)) \<noteq> []
                              then normalizeSubject (hdr_subject (headers msg))
                              else if messageId (headers msg) \<noteq> [] then messageId (headers msg)
                              else ''uid-'' @ number_toString (msg_uid msg)))
     \<and> length (assign_thread_id msgIdToThread msg) = 8
     \<and> set (assign_thread_id msgIdToThread msg) \<subseteq> base36_digits
     \<and> (\<forall>s. length (hashString s) = 8 \<and> set (hashString s) \<subseteq> base36_digits
            \<and> - (2 ^ 31) \<le> foldl hash_step 0 s \<and> foldl hash_step 0 s < 2 ^ 31)
     \<and> (\<forall>s. \<not> has_reply_prefix (strip_reply_prefix (strip_reply_prefix s))
            \<longrightarrow> normalizeSubject s = toLowerCase (trim (strip_all_reply_prefixes s)))"
proof -
  let ?M = msgIdToThread
  let ?h = "headers msg"
  have ok: "ids_ok ?M" using group_loop_ids_ok [of batch] assms by simp
  have ne: "t \<noteq> []" if "?M k = Some t" for k t
  proof -
    have "length t = 8" using ok that by (simp add: ids_ok_def)
    then show ?thesis by auto
  qed
  have step: "group_loop (batch @ [msg]) =
       (push_message threads (assign_thread_id ?M msg) msg,
        if messageId ?h = [] then ?M else ?M(messageId ?h \<mapsto> assign_thread_id ?M msg))"
    using assms by (simp add: group_loop_def group_step_def Let_def)
  have a: "assign_thread_id ?M msg = t"
    if "inReplyTo ?h \<noteq> []" "?M (inReplyTo ?h) = Some t" for t
    using that ne [OF that(2)]
    by (simp add: assign_thread_id_def by_subject_def by_references_def by_in_reply_to_def
        truthy_string_def)
  have b: "assign_thread_id ?M msg = t"
    if "inReplyTo ?h = [] \<or> ?M (inReplyTo ?h) = None"
      "find (\<lambda>ref. ?M ref \<noteq> None) (hdr_references ?h) = Some r" "?M r = Some t" for r t
  proof -
    have "by_in_reply_to ?M msg = None" using that(1) by (auto simp: by_in_reply_to_def)
    moreover have "hdr_references ?h \<noteq> []" using that(2) by auto
    ultimately have "by_references ?M msg (by_in_reply_to ?M msg) = Some t"
      using that(2,3) by (simp add: by_references_def truthy_string_def)
    then show ?thesis using ne [OF that(3)]
      by (simp add: assign_thread_id_def by_subject_def truthy_string_def)
  qed
  have c: "assign_thread_id ?M msg =
             hashString (if normalizeSubject (hdr_subject ?h) \<noteq> [] then normalizeSubject (hdr_subject ?h)
                         else if messageId ?h \<noteq> [] then messageId ?h
                         else ''uid-'' @ number_toString (msg_uid msg))"
    if "inReplyTo ?h = [] \<or> ?M (inReplyTo ?h) = None"
      "\<forall>r \<in> set (hdr_references ?h). ?M r = None"
  proof -
    have "by_in_reply_to ?M msg = None" using that(1) by (auto simp: by_in_reply_to_def)
    moreover have "find (\<lambda>ref. ?M ref \<noteq> None) (hdr_references ?h) = None"
      using that(2) by (simp add: find_None_iff)
    ultimately have "by_references ?M msg (by_in_reply_to ?M msg) = None"
      by (simp add: by_references_def)
    then show ?thesis
      by (simp add: assign_thread_id_def by_subject_def truthy_string_def first_nonempty3)
  qed
  have n: "normalizeSubject s = toLowerCase (trim (strip_all_reply_prefixes s))"
    if "\<not> has_reply_prefix (strip_reply_prefix (strip_reply_prefix s))" for s
    using that by (simp add: normalizeSubject_def strip_all_two)
  show ?thesis
    using step a b c n assign_thread_id_shape [OF ok, of msg] hashString_shape hash_range
    by simp
qed

theorem groupIntoThreads_assignment_witness:
  "groupIntoThreads
     [\<lparr>msg_uid = 101, headers = \<lparr>messageId = ''<a@x>'', inReplyTo = [],
         hdr_references = [], hdr_subject = ''hello''\<rparr>\<rparr>,
      \<lparr>msg_uid = 102, headers = \<lparr>messageId = ''<b@x>'', inReplyTo = ''<a@x>'',
         hdr_references = [''<a@x>''], hdr_subject = ''Other''\<rparr>\<rparr>]
   = [(''001n1e4y'',
       [\<lparr>msg_uid = 101, headers = \<lparr>messageId = ''<a@x>'', inReplyTo = [],
           hdr_references = [], hdr_subject = ''hello''\<rparr>\<rparr>,
        \<lparr>msg_uid = 102, headers = \<lparr>messageId = ''<b@x>'', inReplyTo = ''<a@x>'',
           hdr_references = [''<a@x>''], hdr_subject = ''Other''\<rparr>\<rparr>])]"
proof -
  let ?m1 = "\<lparr>msg_uid = 101, headers = \<lparr>messageId = ''<a@x>'', inReplyTo = [],
         hdr_references = [], hdr_subject = ''hello''\<rparr>\<rparr>"
  let ?m2 = "\<lparr>msg_uid = 102, headers = \<lparr>messageId = ''<b@x>'', inReplyTo = ''<a@x>'',
         hdr_references = [''<a@x>''], hdr_subject = ''Other''\<rparr>\<rparr>"
  have n: "normalizeSubject ''hello'' = ''hello''"
    by (simp add: normalizeSubject_def strip_reply_prefix_def starts_with_ci_def ascii_lower_def
        Let_def char_eval lower_hello)
  have a1: "assign_thread_id Map.empty ?m1 = ''001n1e4y''"
    unfolding assign_thread_id_def by_subject_def by_references_def by_in_reply_to_def
    by (simp add: truthy_string_def first_nonempty_def n hashString_hello)
  have g1: "group_loop [?m1] = ([(''001n1e4y'', [?m1])], [''<a@x>'' \<mapsto> ''001n1e4y''])"
    by (simp add: group_loop_def group_step_def Let_def a1)
  have "group_loop ([?m1] @ [?m2]) = ([(''001n1e4y'', [?m1, ?m2])],
          [''<a@x>'' \<mapsto> ''001n1e4y'', ''<b@x>'' \<mapsto> ''001n1e4y''])"
    using groupIntoThreads_assignment [OF g1, of ?m2] by simp
  then show ?thesis by (simp add: groupIntoThreads_def)
qed

subsection \<open>Message file names\<close>

lemma digit_char_decimal:
  assumes "k < 10"
  shows "is_digit (digit_char k) \<and> (of_char (digit_char k) :: nat) - 48 = k"
proof -
  from assms have "k \<in> {0, 1, 2, 3, 4, 5, 6, 7, 8, 9}" by auto
  then show ?thesis
    by (elim insertE emptyE) (simp_all add: digit_char_def is_digit_def)
qed

lemma number_toString_two:
  "n < 100 \<Longrightarrow> padStart 2 CHR ''0'' (number_toString n) = [digit_char (n div 10), digit_char (n mod 10)]"
proof (cases "n < 10")
  case True
  then show ?thesis
    by (simp add: number_toString_def toString_radix_small padStart_def digit_char_def)
next
  case False
  assume "n < 100"
  then have "n div 10 < 10" by simp
  with False show ?thesis
    by (simp add: number_toString_def toString_radix_small toString_radix_big padStart_def)
qed

lemma pad2_digits: "n < 100 \<Longrightarrow> pad2 n = [digit_char (n div 10), digit_char (n mod 10)]"
  by (simp add: pad2_def number_toString_two)

lemma number_toString_four:
  assumes "1000 \<le> n" "n < 10000"
  shows "number_toString n =
     [digit_char (n div 10 div 10 div 10), digit_char (n div 10 div 10 mod 10),
      digit_char (n div 10 mod 10), digit_char (n mod 10)]"
proof -
  have a: "\<not> n < 10" "\<not> n div 10 < 10" "\<not> n div 10 div 10 < 10" "n div 10 div 10 div 10 < 10"
    using assms by auto
  show ?thesis
    using a by (simp add: number_toString_def toString_radix_small toString_radix_big)
qed

lemma digits_to_nat_two:
  "a < 10 \<Longrightarrow> b < 10 \<Longrightarrow> digits_to_nat [digit_char a, digit_char b] = 10 * a + b"
  using digit_char_decimal [of a] digit_char_decimal [of b]
  by (simp add: digits_to_nat_def)

lemma digits_to_nat_four:
  "a < 10 \<Longrightarrow> b < 10 \<Longrightarrow> c < 10 \<Longrightarrow> d < 10 \<Longrightarrow>
   digits_to_nat [digit_char a, digit_char b, digit_char c, digit_char d]
     = 10 * (10 * (10 * a + b) + c) + d"
  using digit_char_decimal [of a] digit_char_decimal [of b] digit_char_decimal [of c] digit_char_decimal [of d]
  by (simp add: digits_to_nat_def)

lemma two_digit_value: "n < 100 \<Longrightarrow> digits_to_nat [digit_char (n div 10), digit_char (n mod 10)] = n"
  by (subst digits_to_nat_two) simp_all

lemma four_digit_value:
  assumes "n < 10000"
  shows "digits_to_nat [digit_char (n div 10 div 10 div 10), digit_char (n div 10 div 10 mod 10),
                  digit_char (n div 10 mod 10), digit_char (n mod 10)] = n"
proof -
  have "n div 10 div 10 div 10 < 10" using assms by auto
  then have "digits_to_nat [digit_char (n div 10 div 10 div 10), digit_char (n div 10 div 10 mod 10),
                  digit_char (n div 10 mod 10), digit_char (n mod 10)]
      = 10 * (10 * (10 * (n div 10 div 10 div 10) + n div 10 div 10 mod 10) + n div 10 mod 10) + n mod 10"
    by (subst digits_to_nat_four) simp_all
  also have "\<dots> = 10 * (10 * (n div 10 div 10) + n div 10 mod 10) + n mod 10"
    by (simp only: mult_div_mod_eq)
  also have "\<dots> = 10 * (n div 10) + n mod 10"
    by (simp only: mult_div_mod_eq)
  also have "\<dots> = n"
    by (simp only: mult_div_mod_eq)
  finally show ?thesis .
qed


lemma Date_from_iso_fields:
  assumes v: "valid_fields d" and ms: "utc_milliseconds d = 0" and y: "0 \<le> utc_year d"
    and Y: "digits_to_nat [Y1, Y2, Y3, Y4] = nat (utc_year d)"
    and M: "digits_to_nat [M1, M2] = utc_month d + 1"
    and D: "digits_to_nat [D1, D2] = utc_day d"
    and H: "digits_to_nat [H1, H2] = utc_hours d"
    and I: "digits_to_nat [I1, I2] = utc_minutes d"
    and S: "digits_to_nat [S1, S2] = utc_seconds d"
  shows "Date_from_iso ([Y1, Y2, Y3, Y4] @ ''-'' @ [M1, M2] @ ''-'' @ [D1, D2] @ ''T'' @ [H1, H2]
            @ '':'' @ [I1, I2] @ '':'' @ [S1, S2] @ ''Z'') = Date_of d"
proof -
  have rng: "utc_month d < 12" "1 \<le> utc_day d" "utc_day d \<le> days_in_month (utc_year d) (utc_month d)"
    "utc_hours d < 24" "utc_minutes d < 60" "utc_seconds d < 60"
    using v by (simp_all add: valid_fields_def)
  have "Date_from_iso ([Y1, Y2, Y3, Y4] @ ''-'' @ [M1, M2] @ ''-'' @ [D1, D2] @ ''T'' @ [H1, H2]
            @ '':'' @ [I1, I2] @ '':'' @ [S1, S2] @ ''Z'')
      = Date_of \<lparr>utc_year = utc_year d, utc_month = utc_month d, utc_day = utc_day d,
                 utc_hours = utc_hours d, utc_minutes = utc_minutes d, utc_seconds = utc_seconds d,
                 utc_milliseconds = 0\<rparr>"
    using rng y by (simp add: Date_from_iso_def Y M D H I S Let_def)
  also have "\<dots> = Date_of d" using ms by simp
  finally show ?thesis .
qed

lemma filename_2026_02_17:
  "messageFilename (Date_of \<lparr>utc_year = 2026, utc_month = 1, utc_day = 17, utc_hours = 9,
       utc_minutes = 30, utc_seconds = 0, utc_milliseconds = 0\<rparr>) msgId
   = ''20260217T093000Z__msg'' @ msgId @ ''.md''"
  by (simp add: messageFilename_def toIsoBasic_def int_toString_def number_toString_def pad2_def
      padStart_def toString_radix_small toString_radix_big digit_char_def)

text \<open>
  C4, as stated, fails: the last group of the pattern is \<open>(.+)\<close>, and \<open>.\<close> does not
  match a line terminator, so the file name built from a message id with a line feed in
  it does not parse.
\<close>

theorem parseMessageFilename_newline_counterexample:
  "parseMessageFilename
     (messageFilename (Date_of \<lparr>utc_year = 2026, utc_month = 1, utc_day = 17, utc_hours = 9,
         utc_minutes = 30, utc_seconds = 0, utc_milliseconds = 0\<rparr>) [CHR ''a'', CHR 0x0A, CHR ''b''])
   = None"
  unfolding filename_2026_02_17
  by (simp add: parseMessageFilename_def Let_def line_terminator_def)

text \<open>
  C4, amended. For every valid UTC date with a four-digit year and whole seconds, and every
  non-empty message id without a line terminator, parsing the file name that
  \<open>messageFilename\<close> builds gives back the date and the message id.
\<close>

theorem parseMessageFilename_roundtrip:
  assumes v: "valid_fields d"
    and y4: "1000 \<le> utc_year d" "utc_year d \<le> 9999"
    and ms: "utc_milliseconds d = 0"
    and ne: "msgId \<noteq> []"
    and nl: "\<not> list_ex line_terminator msgId"
  shows "parseMessageFilename (messageFilename (Date_of d) msgId) = Some (Date_of d, msgId)"
proof -
  define y where "y = nat (utc_year d)"
  have yr: "1000 \<le> y" "y < 10000" "utc_year d = int y" using y4 by (simp_all add: y_def)
  have rng: "utc_month d + 1 < 100" "utc_day d < 100" "utc_hours d < 100" "utc_minutes d < 100"
    "utc_seconds d < 100"
    using v by (auto simp: valid_fields_def days_in_month_def split: if_splits)
  define Y1 Y2 Y3 Y4 where "Y1 = digit_char (y div 10 div 10 div 10)"
    and "Y2 = digit_char (y div 10 div 10 mod 10)" and "Y3 = digit_char (y div 10 mod 10)"
    and "Y4 = digit_char (y mod 10)"
  define M1 M2 where "M1 = digit_char ((utc_month d + 1) div 10)" and "M2 = digit_char ((utc_month d + 1) mod 10)"
  define D1 D2 where "D1 = digit_char (utc_day d div 10)" and "D2 = digit_char (utc_day d mod 10)"
  define H1 H2 where "H1 = digit_char (utc_hours d div 10)" and "H2 = digit_char (utc_hours d mod 10)"
  define I1 I2 where "I1 = digit_char (utc_minutes d div 10)" and "I2 = digit_char (utc_minutes d mod 10)"
  define S1 S2 where "S1 = digit_char (utc_seconds d div 10)" and "S2 = digit_char (utc_seconds d mod 10)"
  note defs = Y1_def Y2_def Y3_def Y4_def M1_def M2_def D1_def D2_def H1_def H2_def I1_def I2_def
    S1_def S2_def
  have ys: "int_toString (utc_year d) = [Y1, Y2, Y3, Y4]"
    using yr by (simp add: int_toString_def number_toString_four defs)
  have pm: "pad2 (utc_month d + 1) = [M1, M2]"
    unfolding M1_def M2_def by (rule pad2_digits) (rule rng(1))
  have ps: "pad2 (utc_day d) = [D1, D2]"
    "pad2 (utc_hours d) = [H1, H2]" "pad2 (utc_minutes d) = [I1, I2]" "pad2 (utc_seconds d) = [S1, S2]"
    using rng by (simp_all add: pad2_digits defs)
  have fn: "messageFilename (Date_of d) msgId =
      [Y1, Y2, Y3, Y4, M1, M2, D1, D2, CHR ''T'', H1, H2, I1, I2, S1, S2] @ ''Z__msg'' @ msgId @ ''.md''"
    unfolding messageFilename_def toIsoBasic_def JSDate.case ys pm ps by simp
  have dig: "is_digit Y1" "is_digit Y2" "is_digit Y3" "is_digit Y4" "is_digit M1" "is_digit M2"
    "is_digit D1" "is_digit D2" "is_digit H1" "is_digit H2" "is_digit I1" "is_digit I2"
    "is_digit S1" "is_digit S2"
    using yr rng unfolding defs by (simp_all add: digit_char_decimal less_Suc_eq_le)
  have vm: "digits_to_nat [M1, M2] = utc_month d + 1"
    unfolding M1_def M2_def by (rule two_digit_value) (rule rng(1))
  have "digits_to_nat [Y1, Y2, Y3, Y4] = y"
    unfolding defs by (rule four_digit_value) (rule yr(2))
  then have vy: "digits_to_nat [Y1, Y2, Y3, Y4] = nat (utc_year d)"
    by (simp only: y_def)
  have vals: "digits_to_nat [D1, D2] = utc_day d"
    "digits_to_nat [H1, H2] = utc_hours d" "digits_to_nat [I1, I2] = utc_minutes d"
    "digits_to_nat [S1, S2] = utc_seconds d"
    using rng unfolding defs by (simp_all add: two_digit_value)
  have date: "Date_from_iso ([Y1, Y2, Y3, Y4] @ ''-'' @ [M1, M2] @ ''-'' @ [D1, D2] @ ''T'' @ [H1, H2]
            @ '':'' @ [I1, I2] @ '':'' @ [S1, S2] @ ''Z'') = Date_of d"
    using v ms vals vm vy y4 by (intro Date_from_iso_fields) simp_all
  have len: "4 \<le> length (msgId @ ''.md'')" using ne by (cases msgId) simp_all
  show ?thesis
    unfolding parseMessageFilename_def fn
    using dig nl len date by (simp add: Let_def)
qed

theorem parseMessageFilename_roundtrip_witness:
  "parseMessageFilename
     (messageFilename (Date_of \<lparr>utc_year = 2026, utc_month = 5, utc_day = 15, utc_hours = 22,
         utc_minutes = 45, utc_seconds = 10, utc_milliseconds = 0\<rparr>) ''xyz789_002'')
   = Some (Date_of \<lparr>utc_year = 2026, utc_month = 5, utc_day = 15, utc_hours = 22,
         utc_minutes = 45, utc_seconds = 10, utc_milliseconds = 0\<rparr>, ''xyz789_002'')"
  using parseMessageFilename_roundtrip
    [of "\<lparr>utc_year = 2026, utc_month = 5, utc_day = 15, utc_hours = 22,
         utc_minutes = 45, utc_seconds = 10, utc_milliseconds = 0\<rparr>" "''xyz789_002''"]
  by (simp add: valid_fields_def days_in_month_def line_terminator_def)

subsection \<open>Paths\<close>

lemma split_char_nonempty: "split_char c s \<noteq> []"
  by (induction s) (auto split: list.splits)

lemma split_char_no_sep: "seg \<in> set (split_char c s) \<Longrightarrow> c \<notin> set seg"
proof (induction s arbitrary: seg)
  case Nil
  then show ?case by simp
next
  case (Cons x xs)
  show ?case
  proof (cases "x = c")
    case True
    with Cons show ?thesis by auto
  next
    case False
    obtain y ys where y: "split_char c xs = y # ys"
      using split_char_nonempty [of c xs] by (cases "split_char c xs") auto
    with False Cons.prems have "seg = x # y \<or> seg \<in> set ys" by simp
    then show ?thesis using Cons.IH y False by auto
  qed
qed

lemma split_char_append:
  "split_char c (a @ c # b) = split_char c a @ split_char c b"
proof (induction a)
  case Nil
  then show ?case by simp
next
  case (Cons x xs)
  obtain y ys where y: "split_char c xs = y # ys"
    using split_char_nonempty [of c xs] by (cases "split_char c xs") auto
  with Cons show ?case by simp
qed

lemma split_char_join:
  "used \<noteq> [] \<Longrightarrow> split_char c (join [c] used) = concat (map (split_char c) used)"
proof (induction used rule: rev_induct)
  case Nil
  then show ?case by simp
next
  case (snoc u us)
  show ?case
  proof (cases us)
    case Nil
    then show ?thesis by (simp add: join_def)
  next
    case (Cons v vs)
    then have "join [c] (us @ [u]) = join [c] us @ c # u"
      by (simp add: join_def)
    with snoc Cons show ?thesis by (simp add: split_char_append)
  qed
qed

lemma normalize_fold_filter:
  "foldl (normalize_step aa) acc segs
     = foldl (normalize_step aa) acc (filter (\<lambda>s. s \<noteq> [] \<and> s \<noteq> ''.'') segs)"
  by (induction segs arbitrary: acc) (auto simp: normalize_step_def)

lemma normalizeString_join:
  assumes "used \<noteq> []"
  shows "normalizeString (join ''/'' used) aa = foldl (normalize_step aa) [] (concat (map path_segments used))"
proof -
  have "normalizeString (join ''/'' used) aa
      = foldl (normalize_step aa) [] (concat (map (split_char CHR ''/'') used))"
    using assms by (simp add: normalizeString_def split_char_join)
  also have "\<dots> = foldl (normalize_step aa) []
      (filter (\<lambda>s. s \<noteq> [] \<and> s \<noteq> ''.'') (concat (map (split_char CHR ''/'') used)))"
    by (rule normalize_fold_filter)
  also have "filter (\<lambda>s. s \<noteq> [] \<and> s \<noteq> ''.'') (concat (map (split_char CHR ''/'') used))
      = concat (map path_segments used)"
  proof -
    have "path_segments = (\<lambda>x. filter (\<lambda>s. s \<noteq> [] \<and> s \<noteq> ''.'') (split_char CHR ''/'' x))"
      by (rule ext) (simp add: path_segments_def)
    then show ?thesis by (simp add: filter_concat comp_def)
  qed
  finally show ?thesis .
qed

lemma normalize_fold_regular:
  "\<forall>s \<in> set segs. s \<noteq> [] \<and> s \<noteq> ''.'' \<and> s \<noteq> ''..'' \<Longrightarrow>
   foldl (normalize_step aa) acc segs = acc @ segs"
  by (induction segs arbitrary: acc) (auto simp: normalize_step_def)

lemma normalize_fold_dots:
  "foldl (normalize_step True) (replicate m ''..'') (replicate n ''..'') = replicate (m + n) ''..''"
proof (induction n arbitrary: m)
  case 0
  then show ?case by simp
next
  case (Suc n)
  have "normalize_step True (replicate m ''..'') ''..'' = replicate (Suc m) ''..''"
    by (cases m) (simp_all add: normalize_step_def replicate_append_same)
  with Suc [of "Suc m"] show ?case by simp
qed

lemma well_formed_stack_step:
  assumes "res = replicate n ''..'' @ t" "\<forall>s \<in> set t. s \<noteq> [] \<and> s \<noteq> ''.'' \<and> s \<noteq> ''..''"
    "aa \<or> n = 0"
  shows "\<exists>n' t'. normalize_step aa res seg = replicate n' ''..'' @ t'
           \<and> (\<forall>s \<in> set t'. s \<noteq> [] \<and> s \<noteq> ''.'' \<and> s \<noteq> ''..'') \<and> (aa \<or> n' = 0)"
proof (cases "seg = [] \<or> seg = ''.''")
  case True
  then have "normalize_step aa res seg = res" by (auto simp: normalize_step_def)
  with assms show ?thesis by blast
next
  case skip: False
  show ?thesis
  proof (cases "seg = ''..''")
    case False
    with skip have "normalize_step aa res seg = replicate n ''..'' @ (t @ [seg])"
      using assms(1) by (simp add: normalize_step_def)
    moreover have "\<forall>s \<in> set (t @ [seg]). s \<noteq> [] \<and> s \<noteq> ''.'' \<and> s \<noteq> ''..''"
      using assms(2) skip False by auto
    ultimately show ?thesis using assms(3) by blast
  next
    case True
    show ?thesis
    proof (cases "t = []")
      case False
      then have "res \<noteq> []" "last res = last t" "butlast res = replicate n ''..'' @ butlast t"
        using assms(1) by (simp_all add: butlast_append)
      moreover have "last t \<noteq> ''..''" using assms(2) False by (meson last_in_set)
      ultimately have "normalize_step aa res seg = replicate n ''..'' @ butlast t"
        using True by (simp add: normalize_step_def)
      moreover have "\<forall>s \<in> set (butlast t). s \<noteq> [] \<and> s \<noteq> ''.'' \<and> s \<noteq> ''..''"
        using assms(2) by (meson in_set_butlastD)
      ultimately show ?thesis using assms(3) by blast
    next
      case t: True
      then have res: "res = replicate n ''..''" using assms(1) by simp
      have c: "res = [] \<or> last res = ''..''"
        unfolding res by (cases n) simp_all
      have "normalize_step aa res ''..'' = (if aa then res @ [''..''] else res)"
        using c by (auto simp: normalize_step_def)
      moreover have "res @ [''..''] = replicate (Suc n) ''..''"
        by (simp add: res replicate_append_same)
      ultimately have "normalize_step aa res seg = (if aa then replicate (Suc n) ''..'' else res)"
        using True by simp
      then show ?thesis
      proof (cases aa)
        case True
        assume "normalize_step aa res seg = (if aa then replicate (Suc n) ''..'' else res)"
        with True have "normalize_step aa res seg = replicate (Suc n) ''..'' @ []" by simp
        with True show ?thesis by (intro exI [of _ "Suc n"] exI [of _ "[]"]) simp
      next
        case False
        assume "normalize_step aa res seg = (if aa then replicate (Suc n) ''..'' else res)"
        with False have "normalize_step aa res seg = replicate n ''..'' @ []" using res by simp
        with False assms(3) show ?thesis by (intro exI [of _ n] exI [of _ "[]"]) simp
      qed
    qed
  qed
qed

lemma well_formed_stack_fold:
  assumes "res = replicate n ''..'' @ t" "\<forall>s \<in> set t. s \<noteq> [] \<and> s \<noteq> ''.'' \<and> s \<noteq> ''..''"
    "aa \<or> n = 0"
  shows "\<exists>n' t'. foldl (normalize_step aa) res segs = replicate n' ''..'' @ t'
           \<and> (\<forall>s \<in> set t'. s \<noteq> [] \<and> s \<noteq> ''.'' \<and> s \<noteq> ''..'') \<and> (aa \<or> n' = 0)"
  using assms
proof (induction segs arbitrary: res n t)
  case Nil
  then show ?case by auto
next
  case (Cons seg segs)
  from well_formed_stack_step [OF Cons.prems, of seg]
  obtain n' t' where "normalize_step aa res seg = replicate n' ''..'' @ t'"
    "\<forall>s \<in> set t'. s \<noteq> [] \<and> s \<noteq> ''.'' \<and> s \<noteq> ''..''" "aa \<or> n' = 0"
    by blast
  from Cons.IH [OF this] show ?case by simp
qed

lemma well_formed_stack_refold:
  assumes "\<forall>s \<in> set t. s \<noteq> [] \<and> s \<noteq> ''.'' \<and> s \<noteq> ''..''" "aa \<or> n = 0"
  shows "foldl (normalize_step aa) [] (replicate n ''..'' @ t) = replicate n ''..'' @ t"
proof -
  have "foldl (normalize_step aa) [] (replicate n ''..'') = replicate n ''..''"
  proof (cases aa)
    case True
    then show ?thesis using normalize_fold_dots [of 0 n] by simp
  next
    case False
    with assms(2) show ?thesis by simp
  qed
  then show ?thesis using assms(1) by (simp add: normalize_fold_regular)
qed


lemma normalize_fold_subset:
  "set (foldl (normalize_step aa) acc segs) \<subseteq> set acc \<union> {s \<in> set segs. s \<noteq> [] \<and> s \<noteq> ''.''}"
proof (induction segs arbitrary: acc)
  case Nil
  then show ?case by simp
next
  case (Cons seg segs)
  have "set (normalize_step aa acc seg) \<subseteq> set acc \<union> {s. s = seg \<and> s \<noteq> [] \<and> s \<noteq> ''.''}"
    by (auto simp: normalize_step_def dest: in_set_butlastD)
  with Cons.IH [of "normalize_step aa acc seg"] show ?case by auto
qed

lemma normalizeString_segments:
  assumes "seg \<in> set (normalizeString s aa)"
  shows "seg \<noteq> [] \<and> seg \<noteq> ''.'' \<and> CHR ''/'' \<notin> set seg"
proof -
  from assms normalize_fold_subset [of aa "[]" "split_char CHR ''/'' s"]
  have "seg \<in> set (split_char CHR ''/'' s) \<and> seg \<noteq> [] \<and> seg \<noteq> ''.''"
    by (auto simp: normalizeString_def)
  then show ?thesis using split_char_no_sep by blast
qed

lemma split_char_single: "c \<notin> set s \<Longrightarrow> split_char c s = [s]"
  by (induction s) auto

lemma split_char_join_plain:
  assumes "st \<noteq> []" "\<forall>seg \<in> set st. c \<notin> set seg"
  shows "split_char c (join [c] st) = st"
proof -
  have "concat (map (split_char c) st) = st"
    using assms(2) by (induction st) (simp_all add: split_char_single)
  with assms(1) show ?thesis by (simp add: split_char_join)
qed

lemma path_segments_rendered:
  assumes "st \<noteq> []" "\<forall>seg \<in> set st. seg \<noteq> [] \<and> seg \<noteq> ''.'' \<and> CHR ''/'' \<notin> set seg"
    "pre = [] \<or> pre = ''/''" "post = [] \<or> post = ''/''"
  shows "path_segments (pre @ join ''/'' st @ post) = st"
proof -
  have j: "split_char CHR ''/'' (join ''/'' st) = st"
    using assms(1,2) by (intro split_char_join_plain) auto
  have f: "filter (\<lambda>s. s \<noteq> [] \<and> s \<noteq> ''.'') st = st"
    using assms(2) by (simp add: filter_id_conv)
  have a: "split_char CHR ''/'' (join ''/'' st @ post) = st @ (if post = [] then [] else [[]])"
    using assms(4) j split_char_append [of "CHR ''/''" "join ''/'' st" "[]"] by auto
  have "split_char CHR ''/'' (pre @ join ''/'' st @ post)
      = (if pre = [] then [] else [[]]) @ st @ (if post = [] then [] else [[]])"
    using assms(3) a by auto
  then show ?thesis by (simp add: path_segments_def f)
qed

lemma path_normalize_segments:
  assumes "s \<noteq> []"
  shows "path_segments (path_normalize s) = normalizeString s (\<not> isAbsolute s)
       \<and> isAbsolute (path_normalize s) = isAbsolute s \<and> path_normalize s \<noteq> []"
proof (cases "normalizeString s (\<not> isAbsolute s) = []")
  case True
  then have "path_normalize s = (if isAbsolute s then ''/'' else if last s = CHR ''/'' then ''./'' else ''.'')"
    using assms by (simp add: path_normalize_def Let_def join_def)
  with True show ?thesis by (simp add: path_segments_def isAbsolute_def)
next
  case False
  let ?st = "normalizeString s (\<not> isAbsolute s)"
  have ok: "\<forall>seg \<in> set ?st. seg \<noteq> [] \<and> seg \<noteq> ''.'' \<and> CHR ''/'' \<notin> set seg"
    using normalizeString_segments by blast
  obtain x xs where st: "?st = x # xs" using False by (cases ?st) auto
  then have x: "x \<noteq> []" "CHR ''/'' \<notin> set x" using ok by auto
  then have hdx: "hd x \<noteq> CHR ''/''" by (cases x) auto
  have jn: "join ''/'' ?st \<noteq> []" "hd (join ''/'' ?st) = hd x"
    using st x by (simp_all add: join_def)
  let ?pre = "if isAbsolute s then ''/'' else []"
  let ?post = "if last s = CHR ''/'' then ''/'' else []"
  have pn: "path_normalize s = ?pre @ join ''/'' ?st @ ?post"
    using assms jn by (simp add: path_normalize_def Let_def)
  have "path_segments (?pre @ join ''/'' ?st @ ?post) = ?st"
    using False ok by (intro path_segments_rendered) auto
  moreover have "isAbsolute (?pre @ join ''/'' ?st @ ?post) = isAbsolute s"
    using jn hdx by (auto simp: isAbsolute_def)
  moreover have "?pre @ join ''/'' ?st @ ?post \<noteq> []" using jn by simp
  ultimately show ?thesis unfolding pn by simp
qed

lemma path_join_used:
  assumes "filter (\<lambda>arg. arg \<noteq> []) args = u # us"
  shows "path_segments (path_join args)
           = foldl (normalize_step (\<not> isAbsolute u)) [] (concat (map path_segments (u # us)))
       \<and> isAbsolute (path_join args) = isAbsolute u \<and> path_join args \<noteq> []"
proof -
  have u: "u \<noteq> []" using assms by (metis (mono_tags, lifting) filter_eq_ConsD)
  then have j: "join ''/'' (u # us) \<noteq> []" "isAbsolute (join ''/'' (u # us)) = isAbsolute u"
    by (simp_all add: join_def isAbsolute_def)
  have pj: "path_join args = path_normalize (join ''/'' (u # us))"
    using assms by (simp add: path_join_def Let_def)
  show ?thesis
    unfolding pj
    using path_normalize_segments [OF j(1)] normalizeString_join [of "u # us" "\<not> isAbsolute u"] j(2)
    by simp
qed

lemma path_join_normalized: "normalized_path (path_join args)"
proof (cases "filter (\<lambda>arg. arg \<noteq> []) args")
  case Nil
  then have "path_join args = ''.''" by (simp add: path_join_def)
  then show ?thesis by (simp add: normalized_path_def path_segments_def isAbsolute_def)
next
  case (Cons u us)
  from path_join_used [OF Cons]
  have ps: "path_segments (path_join args)
           = foldl (normalize_step (\<not> isAbsolute u)) [] (concat (map path_segments (u # us)))"
    and ab: "isAbsolute (path_join args) = isAbsolute u" and ne: "path_join args \<noteq> []"
    by simp_all
  have "\<exists>n' t'. foldl (normalize_step (\<not> isAbsolute u)) [] (concat (map path_segments (u # us)))
            = replicate n' ''..'' @ t'
           \<and> (\<forall>s \<in> set t'. s \<noteq> [] \<and> s \<noteq> ''.'' \<and> s \<noteq> ''..'') \<and> (\<not> isAbsolute u \<or> n' = 0)"
    by (rule well_formed_stack_fold [of "[]" 0 "[]"]) simp_all
  then show ?thesis unfolding normalized_path_def ps ab using ne by simp
qed

lemma path_join_below:
  assumes A: "normalized_path A"
    and x: "x \<noteq> []" "x \<noteq> ''.''" "x \<noteq> ''..''" "CHR ''/'' \<notin> set x"
    and t: "''..'' \<notin> set (split_char CHR ''/'' tid)"
  shows "path_segments (path_join [A, x, tid]) = path_segments A @ [x] @ path_segments tid
       \<and> isAbsolute (path_join [A, x, tid]) = isAbsolute A"
proof -
  from A obtain n ts where seg: "path_segments A = replicate n ''..'' @ ts"
    and ts: "\<forall>s \<in> set ts. s \<noteq> [] \<and> s \<noteq> ''.'' \<and> s \<noteq> ''..''" and n: "\<not> isAbsolute A \<or> n = 0"
    and ne: "A \<noteq> []"
    by (auto simp: normalized_path_def)
  have used: "filter (\<lambda>arg. arg \<noteq> []) [A, x, tid] = A # (x # (if tid = [] then [] else [tid]))"
    using ne x(1) by simp
  have px: "path_segments x = [x]"
    using x by (simp add: path_segments_def split_char_single)
  have pe: "path_segments [] = []" by (simp add: path_segments_def)
  have cc: "concat (map path_segments (A # (x # (if tid = [] then [] else [tid]))))
      = path_segments A @ ([x] @ path_segments tid)"
    by (simp add: px pe)
  have reg: "\<forall>s \<in> set ([x] @ path_segments tid). s \<noteq> [] \<and> s \<noteq> ''.'' \<and> s \<noteq> ''..''"
    using x t by (auto simp: path_segments_def)
  have "foldl (normalize_step (\<not> isAbsolute A)) [] (path_segments A @ ([x] @ path_segments tid))
      = foldl (normalize_step (\<not> isAbsolute A)) (path_segments A) ([x] @ path_segments tid)"
    unfolding foldl_append seg using well_formed_stack_refold [OF ts n] by simp
  also have "\<dots> = path_segments A @ ([x] @ path_segments tid)"
    using reg by (rule normalize_fold_regular)
  finally show ?thesis
    using path_join_used [OF used] unfolding cc by simp
qed


lemma path_join_two: "path_join [A, x] = path_join [A, x, []]"
  by (simp add: path_join_def)

lemma inside_child:
  assumes "inside dir p" "normalized_path p"
    and "x \<noteq> []" "x \<noteq> ''.''" "x \<noteq> ''..''" "CHR ''/'' \<notin> set x"
  shows "inside dir (path_join [p, x])"
proof -
  have "''..'' \<notin> set (split_char CHR ''/'' [])" by simp
  from path_join_below [OF assms(2-6) this]
  have "path_segments (path_join [p, x]) = path_segments p @ [x]"
    "isAbsolute (path_join [p, x]) = isAbsolute p"
    by (simp_all add: path_join_two path_segments_def)
  with assms(1) show ?thesis by (auto simp: inside_def)
qed

lemma accountDir_data: "accountDir ''/home/u'' ''me@x.com'' (Some ''/data'') = ''/data/accounts/me@x.com''"
  by (simp add: accountDir_def baseDir_def path_join_def path_normalize_def normalizeString_def
      normalize_step_def isAbsolute_def join_def Let_def)

lemma threadDir_escape:
  "threadDir ''/home/u'' ''me@x.com'' ''../../other@x.com/threads/t1'' (Some ''/data'')
   = ''/data/accounts/other@x.com/threads/t1''"
  unfolding threadDir_def accountDir_data
  by (simp add: path_join_def path_normalize_def normalizeString_def
      normalize_step_def isAbsolute_def join_def Let_def)

text \<open>
  C5, as stated, fails: the resolver joins the thread id to the account directory as it
  is, so a thread id that climbs with \<open>..\<close> resolves outside the account subtree, here,
  on a POSIX platform, into the directory of another account.
\<close>

theorem threadDir_escapes_counterexample:
  "threadDir ''/home/u'' ''me@x.com'' ''../../other@x.com/threads/t1'' (Some ''/data'')
     = ''/data/accounts/other@x.com/threads/t1''
   \<and> accountDir ''/home/u'' ''me@x.com'' (Some ''/data'') = ''/data/accounts/me@x.com''
   \<and> \<not> inside (accountDir ''/home/u'' ''me@x.com'' (Some ''/data''))
         (threadDir ''/home/u'' ''me@x.com'' ''../../other@x.com/threads/t1'' (Some ''/data''))"
  unfolding threadDir_escape accountDir_data
  by (simp add: inside_def path_segments_def isAbsolute_def)

text \<open>
  C5, amended. On a POSIX platform, where \<open>path.join\<close> separates at slashes only: for
  every home directory, account email and base directory, and every
  thread id none of whose segments between slashes is \<open>..\<close>, the paths \<open>threadDir\<close>,
  \<open>messagesDir\<close>, \<open>attachmentsDir\<close> and \<open>threadMetaPath\<close> lie inside
  \<open>accountDir(email, base)\<close>; the segments of \<open>threadDir\<close> are those of the account
  directory, then \<open>threads\<close>, then those of the thread id.
\<close>

theorem resolver_stays_inside_account:
  assumes "''..'' \<notin> set (split_char CHR ''/'' threadId)"
  shows "inside (accountDir homedir email base) (threadDir homedir email threadId base)
       \<and> inside (accountDir homedir email base) (messagesDir homedir email threadId base)
       \<and> inside (accountDir homedir email base) (attachmentsDir homedir email threadId base)
       \<and> inside (accountDir homedir email base) (threadMetaPath homedir email threadId base)
       \<and> path_segments (threadDir homedir email threadId base)
           = path_segments (accountDir homedir email base) @ ''threads'' # path_segments threadId"
proof -
  let ?A = "accountDir homedir email base"
  let ?T = "threadDir homedir email threadId base"
  have nA: "normalized_path ?A" unfolding accountDir_def by (rule path_join_normalized)
  have nT: "normalized_path ?T" unfolding threadDir_def by (rule path_join_normalized)
  have "path_segments ?T = path_segments ?A @ [''threads''] @ path_segments threadId
      \<and> isAbsolute ?T = isAbsolute ?A"
    unfolding threadDir_def using nA assms by (intro path_join_below) simp_all
  then have seg: "path_segments ?T = path_segments ?A @ ''threads'' # path_segments threadId"
    and inT: "inside ?A ?T"
    by (simp_all add: inside_def)
  have "inside ?A (messagesDir homedir email threadId base)"
    unfolding messagesDir_def using inT nT by (rule inside_child) simp_all
  moreover have "inside ?A (attachmentsDir homedir email threadId base)"
    unfolding attachmentsDir_def using inT nT by (rule inside_child) simp_all
  moreover have "inside ?A (threadMetaPath homedir email threadId base)"
    unfolding threadMetaPath_def using inT nT by (rule inside_child) simp_all
  ultimately show ?thesis using seg inT by simp
qed

theorem resolver_stays_inside_account_witness:
  "inside (accountDir ''/home/u'' ''me@x.com'' (Some ''/data''))
     (threadMetaPath ''/home/u'' ''me@x.com'' ''001n1e4y'' (Some ''/data''))
   \<and> path_segments (threadDir ''/home/u'' ''me@x.com'' ''001n1e4y'' (Some ''/data''))
       = [''data'', ''accounts'', ''me@x.com'', ''threads'', ''001n1e4y'']"
  using resolver_stays_inside_account [of "''001n1e4y''" "''/home/u''" "''me@x.com''" "Some ''/data''"]
  unfolding accountDir_data
  by (simp add: path_segments_def)

subsection \<open>Sync passes\<close>

lemma imapFullSync_lastUid:
  "result_lastUid (imapFullSync server depthDays maxMessages) =
     (if fetchRecent server depthDays maxMessages = [] then 0
      else Max (msg_uid ` set (fetchRecent server depthDays maxMessages)))"
  by (simp add: imapFullSync_def Let_def)

lemma imapIncrementalSync_lastUid:
  "result_lastUid (imapIncrementalSync server lastUid) =
     (if fetchSince server lastUid = [] then lastUid
      else Max (msg_uid ` set (fetchSince server lastUid)))"
  by (simp add: imapIncrementalSync_def Let_def)

lemma fetchSince_above: "msg \<in> set (fetchSince server lastUid) \<Longrightarrow> lastUid < msg_uid msg"
  by (simp add: fetchSince_def)

lemma imapIncrementalSync_advances:
  "lastUid \<le> result_lastUid (imapIncrementalSync server lastUid)"
  "fetchSince server lastUid \<noteq> [] \<Longrightarrow> lastUid < result_lastUid (imapIncrementalSync server lastUid)"
proof -
  show "fetchSince server lastUid \<noteq> [] \<Longrightarrow> lastUid < result_lastUid (imapIncrementalSync server lastUid)"
  proof -
    assume ne: "fetchSince server lastUid \<noteq> []"
    then obtain msg where m: "msg \<in> set (fetchSince server lastUid)" by (cases "fetchSince server lastUid") auto
    have "lastUid < msg_uid msg" using m by (rule fetchSince_above)
    also have "msg_uid msg \<le> Max (msg_uid ` set (fetchSince server lastUid))" using m by simp
    finally show ?thesis using ne by (simp add: imapIncrementalSync_lastUid)
  qed
  then show "lastUid \<le> result_lastUid (imapIncrementalSync server lastUid)"
    by (cases "fetchSince server lastUid = []") (simp_all add: imapIncrementalSync_lastUid)
qed

text \<open>
  C2, as stated, fails: \<open>maildeck sync --full\<close> on an account whose stored \<open>last_uid\<close>
  is 100, when no message of the last seven days is in the mailbox, writes \<open>last_uid\<close> 0.
\<close>

theorem cmdSync_forced_full_counterexample:
  "cmdSync \<lparr>flag_full = True, flag_unread = False, flag_days = None, flag_max = None\<rparr>
      (Some ''app-password'')
      (Some \<lparr>meta_email = ''me@x.com'', sync_state = idle, last_sync = None, history_id = None,
              last_uid = Some 100, sync_depth_days = 30, poll_interval_seconds = 60\<rparr>)
      ''me@x.com''
      \<lparr>search_since = (\<lambda>days. []), fetch_from = (\<lambda>n. [100]), search_unseen = [],
        message_headers = (\<lambda>u. \<lparr>messageId = [], inReplyTo = [], hdr_references = [], hdr_subject = []\<rparr>)\<rparr>
      ''2026-03-01T00:00:00.000Z''
   = Inr \<lparr>meta_email = ''me@x.com'', sync_state = idle, last_sync = Some ''2026-03-01T00:00:00.000Z'',
          history_id = None, last_uid = Some 0, sync_depth_days = 30, poll_interval_seconds = 60\<rparr>"
  by (simp add: cmdSync_def loadAccountMeta_def imapFullSync_def fetchRecent_def Let_def)

text \<open>
  C2, amended. Across every successful pass of \<open>cmdSync\<close> that is unread-only,
  incremental, or full because no positive \<open>last_uid\<close> was stored, the \<open>last_uid\<close>
  written to \<open>account.json\<close> is greater than or equal to the value before the pass, an
  absent value counting as 0, and an unread-only pass leaves the mark as it was. An
  incremental pass writes the greatest UID that \<open>fetchSince\<close> returned, which is above the
  stored mark, and the stored mark again when nothing was returned. Only a full pass forced
  with \<open>--full\<close> can lower the mark: a full pass writes the greatest UID it fetched, and 0
  when it fetched nothing.
\<close>

theorem cmdSync_last_uid:
  assumes "cmdSync flags (Some pw) file account server now = Inr meta'"
  defines "meta \<equiv> loadAccountMeta file account"
  defines "fetched \<equiv> fetchRecent server (case flag_days flags of None \<Rightarrow> 7 | Some d \<Rightarrow> d)
                        (case flag_max flags of None \<Rightarrow> 200 | Some m \<Rightarrow> m)"
  defines "newer \<equiv> fetchSince server (high_water meta)"
  shows "(flag_unread flags \<or> \<not> flag_full flags \<longrightarrow> high_water meta \<le> high_water meta')
       \<and> (flag_unread flags \<longrightarrow> high_water meta' = high_water meta)
       \<and> (\<not> flag_unread flags \<and> \<not> flag_full flags \<and> 0 < high_water meta \<longrightarrow>
            high_water meta' = (if newer = [] then high_water meta else Max (msg_uid ` set newer))
            \<and> (newer \<noteq> [] \<longrightarrow> high_water meta < high_water meta'))
       \<and> (\<not> flag_unread flags \<and> (flag_full flags \<or> high_water meta = 0) \<longrightarrow>
            high_water meta' = (if fetched = [] then 0 else Max (msg_uid ` set fetched)))"
proof -
  have hw: "(case last_uid meta of None \<Rightarrow> False | Some u \<Rightarrow> u > 0) \<longleftrightarrow> 0 < high_water meta"
    by (simp add: high_water_def split: option.splits)
  have the_hw: "0 < high_water meta \<Longrightarrow> the (last_uid meta) = high_water meta"
    by (auto simp: high_water_def split: option.splits)
  have m': "meta' = meta\<lparr>last_sync := Some now, sync_state := idle,
       last_uid := Some (result_lastUid
         (if flag_unread flags then imapUnreadSync server file account
          else if \<not> flag_full flags \<and> 0 < high_water meta then imapIncrementalSync server (the (last_uid meta))
          else imapFullSync server (case flag_days flags of None \<Rightarrow> 7 | Some d \<Rightarrow> d)
                        (case flag_max flags of None \<Rightarrow> 200 | Some m \<Rightarrow> m)))\<rparr>"
    using assms(1) unfolding cmdSync_def meta_def [symmetric] Let_def hw by simp
  have unread: "high_water meta' = high_water meta" if "flag_unread flags"
    unfolding m' using that by (simp add: high_water_def imapUnreadSync_def Let_def meta_def)
  have incr: "high_water meta' = result_lastUid (imapIncrementalSync server (high_water meta))"
    if "\<not> flag_unread flags" "\<not> flag_full flags" "0 < high_water meta"
    unfolding m' using that the_hw by (simp add: high_water_def)
  have full: "high_water meta' = (if fetched = [] then 0 else Max (msg_uid ` set fetched))"
    if "\<not> flag_unread flags" "flag_full flags \<or> high_water meta = 0"
    unfolding m' using that by (auto simp: high_water_def imapFullSync_lastUid fetched_def)
  have mono: "high_water meta \<le> high_water meta'" if "flag_unread flags \<or> \<not> flag_full flags"
  proof (cases "flag_unread flags")
    case True
    then show ?thesis using unread by simp
  next
    case False
    with that have nf: "\<not> flag_full flags" by simp
    show ?thesis
    proof (cases "0 < high_water meta")
      case True
      show ?thesis
        using incr [OF False nf True] imapIncrementalSync_advances(1) [of "high_water meta" server]
        by simp
    next
      case False
      then show ?thesis by simp
    qed
  qed
  have incr': "high_water meta' = (if newer = [] then high_water meta else Max (msg_uid ` set newer))
      \<and> (newer \<noteq> [] \<longrightarrow> high_water meta < high_water meta')"
    if "\<not> flag_unread flags" "\<not> flag_full flags" "0 < high_water meta"
    using incr [OF that] imapIncrementalSync_advances(2) [of server "high_water meta"]
    by (simp add: imapIncrementalSync_lastUid newer_def)
  from mono unread incr' full show ?thesis by blast
qed

theorem cmdSync_last_uid_witness:
  "cmdSync \<lparr>flag_full = False, flag_unread = False, flag_days = None, flag_max = None\<rparr>
      (Some ''app-password'')
      (Some \<lparr>meta_email = ''me@x.com'', sync_state = idle, last_sync = None, history_id = None,
              last_uid = Some 100, sync_depth_days = 30, poll_interval_seconds = 60\<rparr>)
      ''me@x.com''
      \<lparr>search_since = (\<lambda>days. []), fetch_from = (\<lambda>n. [100, 101, 102, 103]), search_unseen = [],
        message_headers = (\<lambda>u. \<lparr>messageId = [], inReplyTo = [], hdr_references = [], hdr_subject = []\<rparr>)\<rparr>
      ''2026-03-01T00:00:00.000Z''
   = Inr \<lparr>meta_email = ''me@x.com'', sync_state = idle, last_sync = Some ''2026-03-01T00:00:00.000Z'',
          history_id = None, last_uid = Some 103, sync_depth_days = 30, poll_interval_seconds = 60\<rparr>"
proof -
  let ?flags = "\<lparr>flag_full = False, flag_unread = False, flag_days = None, flag_max = None\<rparr>"
  let ?file = "\<lparr>meta_email = ''me@x.com'', sync_state = idle, last_sync = None, history_id = None,
              last_uid = Some 100, sync_depth_days = 30, poll_interval_seconds = 60\<rparr>"
  let ?server = "\<lparr>search_since = (\<lambda>days. []), fetch_from = (\<lambda>n. [100, 101, 102, 103]), search_unseen = [],
        message_headers = (\<lambda>u. \<lparr>messageId = [], inReplyTo = [], hdr_references = [], hdr_subject = []\<rparr>)\<rparr>"
  obtain meta' where r: "cmdSync ?flags (Some ''app-password'') (Some ?file) ''me@x.com'' ?server
      ''2026-03-01T00:00:00.000Z'' = Inr meta'"
    by (simp add: cmdSync_def Let_def)
  have f: "fetchSince ?server 100 = fetch_messages ?server [101, 102, 103]"
    by (simp add: fetchSince_def fetch_messages_def)
  from cmdSync_last_uid [OF r]
  have "high_water meta' = 103"
    by (simp add: loadAccountMeta_def high_water_def f fetch_messages_def)
  moreover have "last_uid meta' \<noteq> None" using r by (auto simp: cmdSync_def Let_def)
  ultimately have "last_uid meta' = Some 103" by (auto simp: high_water_def split: option.splits)
  moreover have "meta' = (loadAccountMeta (Some ?file) ''me@x.com'')\<lparr>last_sync := Some ''2026-03-01T00:00:00.000Z'',
      sync_state := idle, last_uid := last_uid meta'\<rparr>"
    using r by (auto simp: cmdSync_def Let_def)
  ultimately show ?thesis unfolding r by (simp add: loadAccountMeta_def)
qed

subsection \<open>Noise normalization\<close>



















































end
